theory Spec2Isabelle
  imports Main "HOL-Library.Multiset"
begin

section \<open>The object cache of proxy.c\<close>

text \<open>
  The cache of \<^verbatim>\<open>proxy.c\<close> is a singly linked list hanging off a dummy head node
  \<^verbatim>\<open>cachehead\<close>, plus the global counter \<^verbatim>\<open>cachesize\<close>. The chain
  \<^verbatim>\<open>cachehead->next, ->next->next, ...\<close> is modelled as a HOL list (front = most
  recently used), the head node's \<^verbatim>\<open>length\<close> field (the number of items) and
  \<^verbatim>\<open>cachesize\<close> as integers. C strings are \<open>string\<close>s (without the terminating
  NUL), response bytes are a \<open>char list\<close> as well. The C \<^verbatim>\<open>int\<close>s are modelled as
  unbounded \<open>int\<close>: the invariant proved below keeps \<open>cachesize\<close> within
  \<open>0 .. MAX_CACHE_SIZE\<close>, so no 32-bit addition of the source can wrap.

  The program runs one thread per connection on this state, without a lock. The model
  runs the handlers, and the cache operations, one after the other.
\<close>

definition MAX_CACHE_SIZE :: int where
  "MAX_CACHE_SIZE = 1049000"

definition MAX_OBJECT_SIZE :: int where
  "MAX_OBJECT_SIZE = 102400"

text \<open>\<^verbatim>\<open>struct cacheitem\<close> without its \<^verbatim>\<open>next\<close> pointer (the list order holds it).\<close>

record cacheitem =
  length_ci :: int
  host :: string
  port :: string
  uri :: string
  data :: string

text \<open>
  The shared state. \<open>freed\<close> is a log of the nodes handed to \<^verbatim>\<open>free\<close> by
  \<^verbatim>\<open>delete_last_cache\<close>, oldest call first; the source keeps no such log, it
  records the effect of the \<^verbatim>\<open>free\<close> calls.
\<close>

record cache =
  items :: "cacheitem list"
  cachehead_length :: int
  cachesize :: int
  freed :: "cacheitem list"

text \<open>The state set up by \<^verbatim>\<open>main\<close>: an empty chain, both counters 0.\<close>

definition init_cache :: cache where
  "init_cache = \<lparr>items = [], cachehead_length = 0, cachesize = 0, freed = []\<rparr>"

text \<open>Faults of the C program that the model keeps as values.\<close>

datatype fault = NullDeref | HeapOverflow

text \<open>
  The walk of \<^verbatim>\<open>delete_last_cache\<close>: \<^verbatim>\<open>last\<close> starts at the first item and moves
  on while \<^verbatim>\<open>last->next != NULL\<close>; the node before it gets \<^verbatim>\<open>next = NULL\<close>. On an
  empty chain \<^verbatim>\<open>last\<close> is \<^verbatim>\<open>NULL\<close> and \<^verbatim>\<open>last->next\<close> is a null dereference:
  \<open>None\<close> here.
\<close>

fun unlink_last :: "cacheitem list \<Rightarrow> (cacheitem list \<times> cacheitem) option" where
  "unlink_last [] = None"
| "unlink_last [x] = Some ([], x)"
| "unlink_last (x # y # ys) =
     (case unlink_last (y # ys) of
        None \<Rightarrow> None
      | Some (rest, l) \<Rightarrow> Some (x # rest, l))"

definition delete_last_cache :: "cache \<Rightarrow> fault + cache" where
  "delete_last_cache c =
     (case unlink_last (items c) of
        None \<Rightarrow> Inl NullDeref
      | Some (rest, l) \<Rightarrow>
          Inr (c\<lparr>items := rest,
                 cachesize := cachesize c - length_ci l,
                 freed := freed c @ [l],
                 cachehead_length := cachehead_length c - 1\<rparr>))"

lemma unlink_last_shrinks:
  "unlink_last xs = Some (rest, l) \<Longrightarrow> length rest < length xs"
  by (induction xs arbitrary: rest l rule: unlink_last.induct)
     (auto split: option.splits)

lemma delete_last_cache_shrinks:
  "delete_last_cache c = Inr c' \<Longrightarrow> length (items c') < length (items c)"
  by (auto simp: delete_last_cache_def split: option.splits dest: unlink_last_shrinks)

text \<open>
  The eviction loop of \<^verbatim>\<open>proxy\<close> (lines 193-195):
  \<^verbatim>\<open>while (cachesize + len > MAX_CACHE_SIZE) delete_last_cache();\<close>
\<close>

function evict_loop :: "int \<Rightarrow> cache \<Rightarrow> fault + cache" where
  "evict_loop len c =
     (if cachesize c + len > MAX_CACHE_SIZE then
        (case delete_last_cache c of
           Inl e \<Rightarrow> Inl e
         | Inr c' \<Rightarrow> evict_loop len c')
      else Inr c)"
  by pat_completeness auto
termination
  by (relation "measure (\<lambda>(len, c). length (items c))")
     (auto dest: delete_last_cache_shrinks)

declare evict_loop.simps [simp del]

text \<open>
  The insertion at the end of \<^verbatim>\<open>proxy\<close> (lines 191-209, the \<^verbatim>\<open>valid\<close> branch):
  evict, then allocate a node holding a copy of the first \<open>len\<close> bytes of the capture
  buffer and the three key strings, link it in front, bump both counters. In
  \<^verbatim>\<open>proxy\<close> \<open>len\<close> is the number of bytes captured, so it is not negative and
  \<open>cachebuf\<close> holds that many bytes.
\<close>

definition cache_insert ::
  "string \<Rightarrow> string \<Rightarrow> string \<Rightarrow> string \<Rightarrow> int \<Rightarrow> cache \<Rightarrow> fault + cache" where
  "cache_insert h p u cachebuf len c =
     (case evict_loop len c of
        Inl e \<Rightarrow> Inl e
      | Inr c1 \<Rightarrow>
          Inr (c1\<lparr>items := \<lparr>length_ci = len, host = h, port = p, uri = u,
                              data = take (nat len) cachebuf\<rparr> # items c1,
                  cachehead_length := cachehead_length c1 + 1,
                  cachesize := cachesize c1 + len\<rparr>))"

text \<open>
  \<^verbatim>\<open>get_cached_item\<close>: \<open>scan_cache h p u pre rest\<close> is the loop with \<^verbatim>\<open>curr\<close> at the
  head of \<open>rest\<close> and \<open>pre\<close> the nodes already passed (\<^verbatim>\<open>prev\<close> is the last of them, or
  \<^verbatim>\<open>cachehead\<close>). On the first node whose three strings all compare equal, the node is
  unlinked and relinked right after \<^verbatim>\<open>cachehead\<close>.
\<close>

fun scan_cache ::
  "string \<Rightarrow> string \<Rightarrow> string \<Rightarrow> cacheitem list \<Rightarrow> cacheitem list \<Rightarrow>
     (cacheitem \<times> cacheitem list) option" where
  "scan_cache h p u pre [] = None"
| "scan_cache h p u pre (cur # nxt) =
     (if h = host cur \<and> p = port cur \<and> u = uri cur
      then Some (cur, cur # pre @ nxt)
      else scan_cache h p u (pre @ [cur]) nxt)"

definition get_cached_item ::
  "string \<Rightarrow> string \<Rightarrow> string \<Rightarrow> cache \<Rightarrow> cacheitem option \<times> cache" where
  "get_cached_item h p u c =
     (case scan_cache h p u [] (items c) of
        None \<Rightarrow> (None, c)
      | Some (cur, xs) \<Rightarrow> (Some cur, c\<lparr>items := xs\<rparr>))"

section \<open>Request line and URL parsing\<close>

text \<open>
  The C library calls the parsers use. A C string is the \<open>string\<close> of its bytes before
  the terminating NUL. \<^verbatim>\<open>strchr(s, c) != NULL\<close> is \<open>c \<in> set s\<close>.

  \<^verbatim>\<open>strtok\<close> keeps a pointer into the buffer between calls; the model passes it
  explicitly: \<open>strtok s delim\<close> is a call on the string \<open>s\<close> (the buffer itself in a first
  call, the saved rest in a call with \<^verbatim>\<open>NULL\<close>) and returns the token (\<open>None\<close> for
  \<^verbatim>\<open>NULL\<close>) and the saved rest. It skips leading delimiters, ends the token at the next
  delimiter, which it overwrites with NUL, and saves the position after it.
\<close>

definition CR :: char where
  "CR = CHR 0x0D"

definition LF :: char where
  "LF = CHR 0x0A"

definition SP :: char where
  "SP = CHR 0x20"

definition strtok :: "string \<Rightarrow> string \<Rightarrow> string option \<times> string" where
  "strtok s delim =
     (let s1 = dropWhile (\<lambda>c. c \<in> set delim) s in
      if s1 = [] then (None, [])
      else (Some (takeWhile (\<lambda>c. c \<notin> set delim) s1),
            drop 1 (dropWhile (\<lambda>c. c \<notin> set delim) s1)))"

text \<open>
  What the buffer reads as a C string from its start after \<^verbatim>\<open>strtok(s, delim)\<close> wrote
  its NUL: the skipped leading delimiters stay, the first token follows.
\<close>

definition strtok_buf :: "string \<Rightarrow> string \<Rightarrow> string" where
  "strtok_buf s delim =
     takeWhile (\<lambda>c. c \<in> set delim) s @
     takeWhile (\<lambda>c. c \<notin> set delim) (dropWhile (\<lambda>c. c \<in> set delim) s)"

text \<open>\<^verbatim>\<open>strncmp(a, b, n) == 0\<close>: the first \<open>n\<close> characters agree.\<close>

definition strncmp_eq :: "string \<Rightarrow> string \<Rightarrow> nat \<Rightarrow> bool" where
  "strncmp_eq a b n \<longleftrightarrow> take n a = take n b"

text \<open>
  \<^verbatim>\<open>check_request_line\<close> returns -1 (\<open>Inl MalformedRequestLine\<close>) or 0 with the three
  out-pointers set; \<^verbatim>\<open>method\<close> and \<^verbatim>\<open>url\<close> are whatever \<^verbatim>\<open>strtok\<close> returned.
\<close>

datatype parse_error = MalformedRequestLine

definition check_request_line ::
  "string \<Rightarrow> parse_error + (string option \<times> string option \<times> string)" where
  "check_request_line reqline =
     (if SP \<notin> set reqline then Inl MalformedRequestLine
      else
        let (method, s1) = strtok reqline [SP];
            (url, s2) = strtok s1 [SP];
            (version, s3) = strtok s2 [CR, LF]
        in case version of
             None \<Rightarrow> Inl MalformedRequestLine
           | Some v \<Rightarrow>
               if v \<noteq> ''HTTP/1.1'' \<and> v \<noteq> ''HTTP/1.0'' then Inl MalformedRequestLine
               else Inr (method, url, v))"

text \<open>
  \<^verbatim>\<open>sizeof(url)\<close> in \<^verbatim>\<open>parse_url\<close> is the size of a \<^verbatim>\<open>char *\<close>: 8 on the LP64
  platforms the program is written for. The port is copied with \<^verbatim>\<open>strcpy\<close> into a
  block of that many bytes.
\<close>

definition sizeof_char_ptr :: nat where
  "sizeof_char_ptr = 8"

text \<open>
  The last \<^verbatim>\<open>if\<close> of \<^verbatim>\<open>parse_url\<close>: \<open>pu\<close> says whether a \<^verbatim>\<open>'/'\<close> was found,
  \<open>saved\<close> is where \<^verbatim>\<open>strtok\<close> stands; \<^verbatim>\<open>strtok(NULL, "")\<close> returns all that is left.
\<close>

definition uri_of :: "bool \<Rightarrow> string \<Rightarrow> string" where
  "uri_of pu saved =
     (if \<not> pu then ''/''
      else case fst (strtok saved []) of
             None \<Rightarrow> ''/''
           | Some rest \<Rightarrow> ''/'' @ rest)"

text \<open>
  \<^verbatim>\<open>parse_url\<close>. The host is copied from the start of the buffer after the first
  \<^verbatim>\<open>strtok\<close>. \<^verbatim>\<open>strcpy(*port, NULL)\<close> is a null dereference, a port longer than the
  block a heap overflow.
\<close>

definition parse_url :: "string \<Rightarrow> fault + (string \<times> string \<times> string)" where
  "parse_url url0 =
     (let url = (if strncmp_eq url0 ''http://'' 7 then drop 7 url0 else url0);
          hp = (CHR '':'' \<in> set url);
          pu = (CHR ''/'' \<in> set url)
      in if \<not> hp then
           (let (tok, saved) = strtok url ''/''
            in Inr (strtok_buf url ''/'', ''80'', uri_of pu saved))
         else
           (let (tok, saved1) = strtok url '':'';
                (ptok, saved2) = strtok saved1 ''/''
            in case ptok of
                 None \<Rightarrow> Inl NullDeref
               | Some p \<Rightarrow>
                   if sizeof_char_ptr < length p + 1 then Inl HeapOverflow
                   else Inr (strtok_buf url '':'', p, uri_of pu saved2)))"

section \<open>The connection handler\<close>

text \<open>
  What one run of \<^verbatim>\<open>proxy\<close> meets: the lines \<^verbatim>\<open>rio_readlineb\<close> returns on the
  client connection, one per call (after the last one it returns 0), whether
  \<^verbatim>\<open>open_clientfd\<close> succeeds, and the blocks \<^verbatim>\<open>rio_readnb\<close> returns on the server
  connection (a block of length 0 is the end of the stream, as is the end of the list).
  Reads and writes that fail are outside the model.
\<close>

record env =
  client_lines :: "string list"
  connect_ok :: bool
  server_chunks :: "string list"

text \<open>
  What the run does: the \<^verbatim>\<open>rio_writen\<close> calls on the client and on the server
  connection, in order, whether \<^verbatim>\<open>close(connfd)\<close> was called, whether the three target
  strings were freed, and the cache it leaves.
\<close>

record outcome =
  to_client :: "string list"
  to_server :: "string list"
  connfd_closed :: bool
  target_freed :: bool
  cache_after :: cache

definition client_res_hdr :: string where
  "client_res_hdr =
     ''User-Agent: Mozilla/5.0 (X11; Linux x86_64; rv:10.0.3) Gecko/20120305 Firefox/10.0.3'' @ [CR, LF] @
     ''Connection: close'' @ [CR, LF] @
     ''Proxy-Connection: close'' @ [CR, LF] @ [CR, LF]"

definition bad_request :: string where
  "bad_request =
     ''HTTP/1.0 400 Bad Request'' @ [CR, LF] @
     ''Content-Type: plain/text'' @ [CR, LF] @
     ''Content-Length: 0'' @ [CR, LF] @ [CR, LF]"

text \<open>
  The header loop (lines 163-171): it ends at the line \<^verbatim>\<open>"\r\n"\<close> or when the client
  has no more lines; a line is written to the server when none of the three
  \<^verbatim>\<open>strncmp\<close> calls returns 0.
\<close>

fun forward_headers :: "string list \<Rightarrow> string list" where
  "forward_headers [] = []"
| "forward_headers (buf # later) =
     (if buf = [CR, LF] then []
      else if \<not> strncmp_eq buf ''User-Agent'' 10 \<and> \<not> strncmp_eq buf ''Connection'' 10 \<and>
              \<not> strncmp_eq buf ''Proxy-Connection'' 16
           then buf # forward_headers later
           else forward_headers later)"

text \<open>
  The response loop (lines 180-188) with its variables \<^verbatim>\<open>valid\<close>, \<^verbatim>\<open>len\<close>, the
  captured part of \<^verbatim>\<open>cachebuf\<close>, and the writes to the client so far.
\<close>

fun relay ::
  "string list \<Rightarrow> bool \<Rightarrow> int \<Rightarrow> string \<Rightarrow> string list \<Rightarrow>
     bool \<times> int \<times> string \<times> string list" where
  "relay [] valid len cachebuf out = (valid, len, cachebuf, out)"
| "relay (buf # later) valid len cachebuf out =
     (let n = int (length buf) in
      if n = 0 then (valid, len, cachebuf, out)
      else if valid \<and> len + n < MAX_OBJECT_SIZE
           then relay later valid (len + n) (cachebuf @ buf) (out @ [buf])
      else if valid
           then relay later False len cachebuf (out @ [buf])
      else relay later valid len cachebuf (out @ [buf]))"

text \<open>
  \<^verbatim>\<open>proxy\<close>, one connection from the first read to the return. The
  \<^verbatim>\<open>sprintf\<close> of line 159 is modelled as the concatenation it is written for (its
  arguments \<^verbatim>\<open>method\<close> and \<^verbatim>\<open>version\<close> point into its destination \<^verbatim>\<open>buf\<close>).
\<close>

definition proxy :: "env \<Rightarrow> cache \<Rightarrow> fault + outcome" where
  "proxy e c =
     (case client_lines e of
        [] \<Rightarrow>
          Inr \<lparr>to_client = [bad_request], to_server = [], connfd_closed = True,
               target_freed = False, cache_after = c\<rparr>
      | reqline # hdrs \<Rightarrow>
          (case check_request_line reqline of
             Inl err \<Rightarrow>
               Inr \<lparr>to_client = [bad_request], to_server = [], connfd_closed = True,
                    target_freed = False, cache_after = c\<rparr>
           | Inr (None, url, version) \<Rightarrow> Inl NullDeref
           | Inr (Some method, None, version) \<Rightarrow> Inl NullDeref
           | Inr (Some method, Some url, version) \<Rightarrow>
               (case parse_url url of
                  Inl f \<Rightarrow> Inl f
                | Inr (h, p, u) \<Rightarrow>
                    (case get_cached_item h p u c of
                       (Some item, c1) \<Rightarrow>
                         Inr \<lparr>to_client = [take (nat (length_ci item)) (data item)],
                              to_server = [], connfd_closed = True,
                              target_freed = False, cache_after = c1\<rparr>
                     | (None, c1) \<Rightarrow>
                         if \<not> connect_ok e then
                           Inr \<lparr>to_client = [bad_request], to_server = [],
                                connfd_closed = False, target_freed = True,
                                cache_after = c1\<rparr>
                         else
                           (let req = method @ [SP] @ u @ [SP] @ version @ [CR, LF];
                                sent = req # forward_headers hdrs @ [client_res_hdr];
                                (valid, len, cachebuf, out) =
                                   relay (server_chunks e) True 0 [] []
                            in if valid then
                                 (case cache_insert h p u cachebuf len c1 of
                                    Inl f \<Rightarrow> Inl f
                                  | Inr c2 \<Rightarrow>
                                      Inr \<lparr>to_client = out, to_server = sent,
                                           connfd_closed = True, target_freed = False,
                                           cache_after = c2\<rparr>)
                               else
                                 Inr \<lparr>to_client = out, to_server = sent,
                                      connfd_closed = True, target_freed = True,
                                      cache_after = c1\<rparr>)))))"

section \<open>Notions used to state the properties\<close>

text \<open>The sum of the \<^verbatim>\<open>length\<close> fields along the chain.\<close>

definition sum_len :: "cacheitem list \<Rightarrow> int" where
  "sum_len xs = sum_list (map length_ci xs)"

text \<open>
  What the eviction loop leaves for a new object of \<open>len\<close> bytes: \<open>k\<close> is the largest
  number of front (most recently used) items whose lengths, plus \<open>len\<close>, fit the budget.
\<close>

definition evict_keep :: "int \<Rightarrow> cacheitem list \<Rightarrow> nat \<Rightarrow> bool" where
  "evict_keep len xs k \<longleftrightarrow>
     k \<le> length xs \<and> sum_len (take k xs) + len \<le> MAX_CACHE_SIZE \<and>
     (\<forall>j \<in> {k <.. length xs}. sum_len (take j xs) + len > MAX_CACHE_SIZE)"

text \<open>
  Tokens of a line: the maximal runs of characters that are not separators. The
  separators are either the space character alone or the white space of C's
  \<^verbatim>\<open>isspace\<close> (space, tab, line feed, vertical tab, form feed, carriage return).
\<close>

lemma dropWhile_twice_shorter:
  assumes "dropWhile sep s \<noteq> []"
  shows "length (dropWhile (\<lambda>c. \<not> sep c) (dropWhile sep s)) < length s"
proof -
  from assms obtain a as where a: "dropWhile sep s = a # as"
    by (cases "dropWhile sep s") auto
  with hd_dropWhile [OF assms] have "\<not> sep a" by simp
  then have "length (dropWhile (\<lambda>c. \<not> sep c) (a # as)) \<le> length as"
    by (simp add: length_dropWhile_le)
  also have "length as < length (dropWhile sep s)" using a by simp
  also have "\<dots> \<le> length s" by (rule length_dropWhile_le)
  finally show ?thesis using a by simp
qed

function tokens :: "(char \<Rightarrow> bool) \<Rightarrow> string \<Rightarrow> string list" where
  "tokens sep s =
     (let s1 = dropWhile sep s in
      if s1 = [] then []
      else takeWhile (\<lambda>c. \<not> sep c) s1 # tokens sep (dropWhile (\<lambda>c. \<not> sep c) s1))"
  by pat_completeness auto
termination
  by (relation "measure (\<lambda>(sep, s). length s)") (auto intro: dropWhile_twice_shorter)

declare tokens.simps [simp del]

definition isspace :: "char \<Rightarrow> bool" where
  "isspace c \<longleftrightarrow> c \<in> {SP, CHR 0x09, LF, CHR 0x0B, CHR 0x0C, CR}"

text \<open>
  The key of an item, the number of items stored under a key, and chains in which no two
  items have the same key.
\<close>

definition key_of :: "cacheitem \<Rightarrow> string \<times> string \<times> string" where
  "key_of x = (host x, port x, uri x)"

definition count_key :: "string \<Rightarrow> string \<Rightarrow> string \<Rightarrow> cacheitem list \<Rightarrow> nat" where
  "count_key h p u xs = length (filter (\<lambda>x. h = host x \<and> p = port x \<and> u = uri x) xs)"

definition distinct_keys :: "cacheitem list \<Rightarrow> bool" where
  "distinct_keys xs \<longleftrightarrow> distinct (map key_of xs)"

text \<open>
  Sequences of cache operations: a lookup (\<^verbatim>\<open>get_cached_item\<close>, whose result is
  dropped here) or an insertion with the handler's capture buffer and byte count.
\<close>

datatype cache_op =
  Lookup string string string
| Insert string string string string int

fun apply_op :: "cache_op \<Rightarrow> cache \<Rightarrow> fault + cache" where
  "apply_op (Lookup h p u) c = Inr (snd (get_cached_item h p u c))"
| "apply_op (Insert h p u cachebuf len) c = cache_insert h p u cachebuf len c"

fun run_ops :: "cache_op list \<Rightarrow> cache \<Rightarrow> fault + cache" where
  "run_ops [] c = Inr c"
| "run_ops (x # xs) c =
     (case apply_op x c of
        Inl e \<Rightarrow> Inl e
      | Inr c' \<Rightarrow> run_ops xs c')"

text \<open>
  An operation whose inserted length is a byte count (not negative) below the per-object
  ceiling.
\<close>

fun op_ok :: "cache_op \<Rightarrow> bool" where
  "op_ok (Lookup h p u) = True"
| "op_ok (Insert h p u cachebuf len) = (0 \<le> len \<and> len < MAX_OBJECT_SIZE)"

text \<open>
  The size invariant of the cache: the counter is the sum of the lengths and within the
  budget, and no length is negative.
\<close>

definition cache_inv :: "cache \<Rightarrow> bool" where
  "cache_inv c \<longleftrightarrow>
     cachesize c = sum_len (items c) \<and> cachesize c \<le> MAX_CACHE_SIZE \<and>
     (\<forall>x \<in> set (items c). 0 \<le> length_ci x)"

text \<open>
  The recency order of the specification, stated with time stamps and without any list
  order. A live entry carries the time of its last use; the second component logs the
  evicted entries. The operation at position \<open>t\<close> of a sequence happens at time \<open>t\<close>.
  A lookup that finds entries with the key stamps the most recently used of them with
  the current time (the specification has at most one entry per key); otherwise it
  changes nothing. An insertion evicts the entry with the oldest stamp, one at a time,
  while the lengths of the live entries plus the new length exceed the budget and an
  entry is left, then adds the new entry with the current time.
\<close>

definition spec_lru_lookup ::
  "nat \<Rightarrow> string \<Rightarrow> string \<Rightarrow> string \<Rightarrow> (nat \<times> cacheitem) list \<Rightarrow> (nat \<times> cacheitem) list" where
  "spec_lru_lookup t h p u live =
     (let hits = filter (\<lambda>e. key_of (snd e) = (h, p, u)) live in
      if hits = [] then live
      else let m = Max (set (map fst hits)) in
           map (\<lambda>e. if fst e = m then (t, snd e) else e) live)"

function spec_lru_evict ::
  "int \<Rightarrow> (nat \<times> cacheitem) list \<times> cacheitem list \<Rightarrow>
     (nat \<times> cacheitem) list \<times> cacheitem list" where
  "spec_lru_evict len (live, gone) =
     (if live \<noteq> [] \<and> sum_len (map snd live) + len > MAX_CACHE_SIZE
      then spec_lru_evict len
             (remove1 (arg_min_list fst live) live, gone @ [snd (arg_min_list fst live)])
      else (live, gone))"
  by pat_completeness auto
termination
  by (relation "measure (\<lambda>(len, live, gone). length live)")
     (auto simp: length_remove1 arg_min_list_in intro: diff_less length_pos_if_in_set)

declare spec_lru_evict.simps [simp del]

definition spec_lru_insert ::
  "nat \<Rightarrow> string \<Rightarrow> string \<Rightarrow> string \<Rightarrow> string \<Rightarrow> int \<Rightarrow>
     (nat \<times> cacheitem) list \<times> cacheitem list \<Rightarrow> (nat \<times> cacheitem) list \<times> cacheitem list" where
  "spec_lru_insert t h p u cachebuf len s =
     (case spec_lru_evict len s of
        (live, gone) \<Rightarrow>
          ((t, \<lparr>length_ci = len, host = h, port = p, uri = u,
                 data = take (nat len) cachebuf\<rparr>) # live, gone))"

fun spec_lru_run ::
  "nat \<Rightarrow> cache_op list \<Rightarrow> (nat \<times> cacheitem) list \<times> cacheitem list \<Rightarrow>
     (nat \<times> cacheitem) list \<times> cacheitem list" where
  "spec_lru_run t [] s = s"
| "spec_lru_run t (Lookup h p u # ops) s =
     spec_lru_run (Suc t) ops (spec_lru_lookup t h p u (fst s), snd s)"
| "spec_lru_run t (Insert h p u cachebuf len # ops) s =
     spec_lru_run (Suc t) ops (spec_lru_insert t h p u cachebuf len s)"

text \<open>
  \<open>recency_order live G\<close>: the list \<open>G\<close> holds the entries of \<open>live\<close>, most recently
  used first (stamps strictly decreasing). \<open>lru_rel t s c\<close>: at time \<open>t\<close> the chain of
  the cache \<open>c\<close> is the live entries of \<open>s\<close> in that order, and the nodes it freed are
  the entries \<open>s\<close> evicted, in the same order.
\<close>

definition recency_order :: "(nat \<times> cacheitem) list \<Rightarrow> (nat \<times> cacheitem) list \<Rightarrow> bool" where
  "recency_order live G \<longleftrightarrow> mset G = mset live \<and> sorted_wrt (\<lambda>a b. fst a > fst b) G"

definition lru_rel :: "nat \<Rightarrow> (nat \<times> cacheitem) list \<times> cacheitem list \<Rightarrow> cache \<Rightarrow> bool" where
  "lru_rel t s c \<longleftrightarrow>
     (\<exists>G. recency_order (fst s) G \<and> map snd G = items c) \<and> snd s = freed c \<and>
     (\<forall>e \<in> set (fst s). fst e < t)"

text \<open>An example: objects of 102399 bytes under the keys \<open>(h, 80, /)\<close>.\<close>

definition example_item :: "string \<Rightarrow> cacheitem" where
  "example_item h = \<lparr>length_ci = 102399, host = h, port = ''80'', uri = ''/'',
                     data = replicate 102399 (CHR ''x'')\<rparr>"

definition example_insert :: "string \<Rightarrow> cache_op" where
  "example_insert h = Insert h ''80'' ''/'' (replicate 102399 (CHR ''x'')) 102399"

section \<open>Properties of the cache\<close>

lemma unlink_last_eq:
  "unlink_last xs = (if xs = [] then None else Some (butlast xs, last xs))"
  by (induction xs rule: unlink_last.induct) auto

lemma sum_len_simps [simp]:
  "sum_len [] = 0" "sum_len (x # xs) = length_ci x + sum_len xs"
  "sum_len (xs @ ys) = sum_len xs + sum_len ys"
  by (simp_all add: sum_len_def)

lemma sum_len_butlast: "xs \<noteq> [] \<Longrightarrow> sum_len (butlast xs) = sum_len xs - length_ci (last xs)"
  by (induction xs) auto

lemma delete_last_cache_eq:
  "delete_last_cache c =
     (if items c = [] then Inl NullDeref
      else Inr (c\<lparr>items := butlast (items c),
                  cachesize := cachesize c - length_ci (last (items c)),
                  freed := freed c @ [last (items c)],
                  cachehead_length := cachehead_length c - 1\<rparr>))"
  by (simp add: delete_last_cache_def unlink_last_eq)

lemma evict_loop_char:
  "cachesize c = sum_len (items c) \<Longrightarrow> len \<le> MAX_CACHE_SIZE \<Longrightarrow>
   \<exists>k. evict_keep len (items c) k \<and>
     evict_loop len c = Inr (c\<lparr>items := take k (items c),
        cachesize := sum_len (take k (items c)),
        freed := freed c @ rev (drop k (items c)),
        cachehead_length := cachehead_length c - int (length (items c) - k)\<rparr>)"
proof (induction len c rule: evict_loop.induct)
  case (1 len c)
  show ?case
  proof (cases "cachesize c + len > MAX_CACHE_SIZE")
    case False
    have "evict_keep len (items c) (length (items c))"
      using False 1(2) by (simp add: evict_keep_def)
    moreover have "evict_loop len c = Inr c"
      using False by (simp add: evict_loop.simps)
    ultimately show ?thesis using 1(2)
      by (intro exI [of _ "length (items c)"]) simp
  next
    case True
    then have ne: "items c \<noteq> []" using 1(2,3) by auto
    define c' where "c' = c\<lparr>items := butlast (items c),
                  cachesize := cachesize c - length_ci (last (items c)),
                  freed := freed c @ [last (items c)],
                  cachehead_length := cachehead_length c - 1\<rparr>"
    have d: "delete_last_cache c = Inr c'"
      using ne by (simp add: delete_last_cache_eq c'_def)
    have inv': "cachesize c' = sum_len (items c')"
      using ne 1(2) by (simp add: c'_def sum_len_butlast)
    from 1(1) [OF True d inv' 1(3)] obtain k where
      k: "evict_keep len (items c') k" and
      e: "evict_loop len c' = Inr (c'\<lparr>items := take k (items c'),
        cachesize := sum_len (take k (items c')),
        freed := freed c' @ rev (drop k (items c')),
        cachehead_length := cachehead_length c' - int (length (items c') - k)\<rparr>)"
      by blast
    have kl: "k \<le> length (items c) - 1" using k by (simp add: evict_keep_def c'_def)
    then have kl': "k < length (items c)" using ne by (cases "items c") auto
    have tk: "\<And>j. j < length (items c) \<Longrightarrow> take j (butlast (items c)) = take j (items c)"
      by (simp add: take_butlast)
    have dr: "drop k (items c) = drop k (butlast (items c)) @ [last (items c)]"
      using ne kl' by (metis append_butlast_last_id drop_append length_butlast 
         diff_is_0_eq drop0 kl)
    have keep: "evict_keep len (items c) k"
      unfolding evict_keep_def
    proof (intro conjI ballI)
      show "k \<le> length (items c)" using kl' by simp
      show "sum_len (take k (items c)) + len \<le> MAX_CACHE_SIZE"
        using k kl' by (simp add: evict_keep_def c'_def tk)
      fix j assume "j \<in> {k <.. length (items c)}"
      then have j: "k < j \<and> j \<le> length (items c)" by simp
      show "MAX_CACHE_SIZE < sum_len (take j (items c)) + len"
      proof (cases "j = length (items c)")
        case True
        then show ?thesis using \<open>cachesize c + len > MAX_CACHE_SIZE\<close> 1(2) by simp
      next
        case False
        then have jl: "j < length (items c)" using j by simp
        then have "j \<in> {k <.. length (items c')}" using j by (simp add: c'_def)
        with k have "MAX_CACHE_SIZE < sum_len (take j (items c')) + len"
          by (simp add: evict_keep_def)
        then show ?thesis using jl by (simp add: c'_def tk)
      qed
    qed
    have "evict_loop len c = evict_loop len c'"
      using True d by (subst evict_loop.simps) simp
    also note e
    also have "c'\<lparr>items := take k (items c'),
        cachesize := sum_len (take k (items c')),
        freed := freed c' @ rev (drop k (items c')),
        cachehead_length := cachehead_length c' - int (length (items c') - k)\<rparr>
      = c\<lparr>items := take k (items c),
        cachesize := sum_len (take k (items c)),
        freed := freed c @ rev (drop k (items c)),
        cachehead_length := cachehead_length c - int (length (items c) - k)\<rparr>"
      using kl' ne by (simp add: c'_def tk dr)
    finally show ?thesis using keep by blast
  qed
qed


lemma scan_cache_Some:
  "scan_cache h p u pre xs = Some (it, ys) \<Longrightarrow>
   \<exists>a b. xs = a @ it # b \<and> ys = it # pre @ a @ b \<and>
     h = host it \<and> p = port it \<and> u = uri it \<and>
     (\<forall>x \<in> set a. \<not> (h = host x \<and> p = port x \<and> u = uri x))"
proof (induction xs arbitrary: pre)
  case Nil
  then show ?case by simp
next
  case (Cons x xs)
  show ?case
  proof (cases "h = host x \<and> p = port x \<and> u = uri x")
    case True
    with Cons.prems show ?thesis by (intro exI [of _ "[]"] exI [of _ xs]) auto
  next
    case False
    with Cons.prems have "scan_cache h p u (pre @ [x]) xs = Some (it, ys)" by auto
    from Cons.IH [OF this] obtain a b where
      "xs = a @ it # b" "ys = it # (pre @ [x]) @ a @ b"
      "h = host it \<and> p = port it \<and> u = uri it"
      "\<forall>x \<in> set a. \<not> (h = host x \<and> p = port x \<and> u = uri x)" by blast
    with False show ?thesis by (intro exI [of _ "x # a"] exI [of _ b]) auto
  qed
qed

lemma scan_cache_None:
  "scan_cache h p u pre xs = None \<longleftrightarrow>
     (\<forall>x \<in> set xs. \<not> (h = host x \<and> p = port x \<and> u = uri x))"
  by (induction xs arbitrary: pre) auto

lemma get_cached_item_sum_len:
  "sum_len (items (snd (get_cached_item h p u c))) = sum_len (items c)"
  by (auto simp: get_cached_item_def split: option.splits dest!: scan_cache_Some)

lemma get_cached_item_cachesize:
  "cachesize (snd (get_cached_item h p u c)) = cachesize c"
  by (auto simp: get_cached_item_def split: option.splits)

lemma cache_insert_char:
  assumes "cachesize c = sum_len (items c)" and "len < MAX_OBJECT_SIZE"
  shows "\<exists>k. evict_keep len (items c) k \<and>
     cache_insert h p u cachebuf len c =
       Inr (c\<lparr>items := \<lparr>length_ci = len, host = h, port = p, uri = u,
                          data = take (nat len) cachebuf\<rparr> # take k (items c),
               cachesize := sum_len (take k (items c)) + len,
               freed := freed c @ rev (drop k (items c)),
               cachehead_length := cachehead_length c - int (length (items c) - k) + 1\<rparr>)"
proof -
  have "len \<le> MAX_CACHE_SIZE"
    using assms(2) by (simp add: MAX_OBJECT_SIZE_def MAX_CACHE_SIZE_def)
  from evict_loop_char [OF assms(1) this] obtain k where
    "evict_keep len (items c) k" and
    "evict_loop len c = Inr (c\<lparr>items := take k (items c),
        cachesize := sum_len (take k (items c)),
        freed := freed c @ rev (drop k (items c)),
        cachehead_length := cachehead_length c - int (length (items c) - k)\<rparr>)"
    by blast
  then show ?thesis
    by (intro exI [of _ k]) (simp add: cache_insert_def)
qed

lemma get_cached_item_set:
  "set (items (snd (get_cached_item h p u c))) = set (items c)"
  by (auto simp: get_cached_item_def split: option.splits dest!: scan_cache_Some)

lemma sum_len_nonneg: "\<forall>x \<in> set xs. 0 \<le> length_ci x \<Longrightarrow> 0 \<le> sum_len xs"
  by (induction xs) auto

lemma cache_insert_inv:
  assumes "cache_inv c" and "0 \<le> len" and "len < MAX_OBJECT_SIZE"
  shows "\<exists>c'. cache_insert h p u cachebuf len c = Inr c' \<and> cache_inv c'"
proof -
  from cache_insert_char [OF _ assms(3), of c h p u cachebuf] assms(1)
  obtain k where "evict_keep len (items c) k" and
    "cache_insert h p u cachebuf len c =
       Inr (c\<lparr>items := \<lparr>length_ci = len, host = h, port = p, uri = u,
                          data = take (nat len) cachebuf\<rparr> # take k (items c),
               cachesize := sum_len (take k (items c)) + len,
               freed := freed c @ rev (drop k (items c)),
               cachehead_length := cachehead_length c - int (length (items c) - k) + 1\<rparr>)"
    by (auto simp: cache_inv_def)
  then show ?thesis using assms(1,2)
    by (auto simp: cache_inv_def evict_keep_def dest: in_set_takeD)
qed

lemma apply_op_inv:
  "cache_inv c \<Longrightarrow> op_ok x \<Longrightarrow> \<exists>c'. apply_op x c = Inr c' \<and> cache_inv c'"
proof (cases x)
  case (Lookup h p u)
  assume "cache_inv c"
  then show ?thesis using Lookup
    by (simp add: cache_inv_def get_cached_item_sum_len get_cached_item_cachesize
          get_cached_item_set)
next
  case (Insert h p u cachebuf len)
  assume "cache_inv c" "op_ok x"
  then show ?thesis using Insert cache_insert_inv by simp
qed

lemma run_ops_inv:
  "cache_inv c \<Longrightarrow> list_all op_ok ops \<Longrightarrow> \<exists>c'. run_ops ops c = Inr c' \<and> cache_inv c'"
proof (induction ops arbitrary: c)
  case Nil
  then show ?case by simp
next
  case (Cons x xs)
  from Cons.prems have ok: "op_ok x" "list_all op_ok xs" by simp_all
  from apply_op_inv [OF Cons.prems(1) ok(1)] obtain c1 where
    c1: "apply_op x c = Inr c1" "cache_inv c1" by blast
  from Cons.IH [OF c1(2) ok(2)] c1(1) show ?case by simp
qed

lemma init_cache_inv: "cache_inv init_cache"
  by (simp add: cache_inv_def init_cache_def MAX_CACHE_SIZE_def)

text \<open>
  The cache refines the time-stamped specification: eviction, lookup and insertion keep
  \<open>lru_rel\<close>, so every run of operations does.
\<close>

lemma recency_order_set: "recency_order live G \<Longrightarrow> set G = set live"
  by (auto simp: recency_order_def dest: mset_eq_setD)

lemma recency_order_sum_len:
  "recency_order live G \<Longrightarrow> sum_len (map snd live) = sum_len (map snd G)"
proof -
  assume "recency_order live G"
  then have "mset (map (length_ci \<circ> snd) live) = mset (map (length_ci \<circ> snd) G)"
    by (simp add: recency_order_def)
  then have "sum_list (map (length_ci \<circ> snd) live) = sum_list (map (length_ci \<circ> snd) G)"
    by (metis sum_mset_sum_list)
  then show ?thesis by (simp add: sum_len_def)
qed

lemma recency_order_Nil: "recency_order live G \<Longrightarrow> live = [] \<longleftrightarrow> G = []"
  by (auto simp: recency_order_def)

lemma sorted_desc_last_least:
  "sorted_wrt (\<lambda>a b. fst a > fst b) (G :: (nat \<times> 'b) list) \<Longrightarrow> e \<in> set G \<Longrightarrow>
   e \<noteq> last G \<Longrightarrow> fst (last G) < fst e"
proof (induction G rule: rev_induct)
  case Nil
  then show ?case by simp
next
  case (snoc x xs)
  then show ?case by (auto simp: sorted_wrt_append)
qed

lemma oldest_is_last:
  assumes "recency_order live G" and "G \<noteq> []"
  shows "arg_min_list fst live = last G"
proof -
  from assms have ne: "live \<noteq> []" by (simp add: recency_order_Nil)
  let ?e = "arg_min_list fst live"
  from ne have "?e \<in> set live" by (rule arg_min_list_in)
  then have in_G: "?e \<in> set G" using assms(1) by (simp add: recency_order_set)
  have lastG: "last G \<in> set live" using assms by (simp add: recency_order_set [symmetric])
  from ne have "fst ?e = Min (fst ` set live)" by (rule f_arg_min_list_f)
  then have "fst ?e \<le> fst (last G)" using lastG by simp
  with sorted_desc_last_least [OF _ in_G] assms(1) show ?thesis
    by (auto simp: recency_order_def)
qed

lemma recency_order_butlast:
  assumes "recency_order live G" and "G \<noteq> []"
  shows "recency_order (remove1 (last G) live) (butlast G)"
proof -
  from assms(2) have G: "butlast G @ [last G] = G" by simp
  have "mset live = mset (butlast G @ [last G])"
    using assms(1) by (simp only: G recency_order_def)
  then have E: "mset live = add_mset (last G) (mset (butlast G))" by simp
  have "mset (butlast G) = mset live - {#last G#}" unfolding E by simp
  moreover have "sorted_wrt (\<lambda>a b. fst a > fst b) (butlast G @ [last G])"
    using assms(1) by (simp only: G recency_order_def)
  then have "sorted_wrt (\<lambda>a b. fst a > fst b) (butlast G)"
    by (simp only: sorted_wrt_append)
  ultimately show ?thesis by (simp add: recency_order_def)
qed

lemma evict_parallel:
  "cachesize c = sum_len (items c) \<Longrightarrow> len \<le> MAX_CACHE_SIZE \<Longrightarrow>
   recency_order live G \<Longrightarrow> map snd G = items c \<Longrightarrow> gone = freed c \<Longrightarrow>
   \<exists>c' k. evict_loop len c = Inr c' \<and> k \<le> length G \<and>
     recency_order (fst (spec_lru_evict len (live, gone))) (take k G) \<and>
     items c' = take k (items c) \<and>
     snd (spec_lru_evict len (live, gone)) = freed c'"
proof (induction len c arbitrary: live gone G rule: evict_loop.induct)
  case (1 len c)
  have sum: "sum_len (map snd live) = cachesize c"
    using 1(2,4,5) by (simp add: recency_order_sum_len)
  show ?case
  proof (cases "cachesize c + len > MAX_CACHE_SIZE")
    case False
    then have "evict_loop len c = Inr c" by (simp add: evict_loop.simps)
    moreover have "spec_lru_evict len (live, gone) = (live, gone)"
      using False sum by (simp add: spec_lru_evict.simps)
    moreover have "length G = length (items c)" using 1(5) by (metis length_map)
    ultimately show ?thesis using 1(4,5,6)
      by (intro exI [of _ c] exI [of _ "length G"]) simp
  next
    case True
    then have ne: "items c \<noteq> []" using 1(2,3) by auto
    then have Gne: "G \<noteq> []" using 1(5) by auto
    then have lne: "live \<noteq> []" using 1(4) by (simp add: recency_order_Nil)
    define c1 where "c1 = c\<lparr>items := butlast (items c),
                  cachesize := cachesize c - length_ci (last (items c)),
                  freed := freed c @ [last (items c)],
                  cachehead_length := cachehead_length c - 1\<rparr>"
    have d: "delete_last_cache c = Inr c1"
      using ne by (simp add: delete_last_cache_eq c1_def)
    have inv1: "cachesize c1 = sum_len (items c1)"
      using ne 1(2) by (simp add: c1_def sum_len_butlast)
    have old: "arg_min_list fst live = last G" using 1(4) Gne by (rule oldest_is_last)
    have lastG: "snd (last G) = last (items c)"
      using Gne 1(5) by (metis last_map)
    have ro: "recency_order (remove1 (last G) live) (butlast G)"
      using 1(4) Gne by (rule recency_order_butlast)
    have m: "map snd (butlast G) = items c1" using 1(5) by (simp add: c1_def map_butlast)
    have g: "gone @ [snd (last G)] = freed c1" using 1(6) lastG by (simp add: c1_def)
    from 1(1) [OF True d inv1 1(3) ro m g] obtain c' k where
      e: "evict_loop len c1 = Inr c'" and k: "k \<le> length (butlast G)" and
      r: "recency_order (fst (spec_lru_evict len (remove1 (last G) live, gone @ [snd (last G)])))
            (take k (butlast G))" and
      i: "items c' = take k (items c1)" and
      f: "snd (spec_lru_evict len (remove1 (last G) live, gone @ [snd (last G)])) = freed c'"
      by blast
    have step: "spec_lru_evict len (live, gone) =
        spec_lru_evict len (remove1 (last G) live, gone @ [snd (last G)])"
      using True sum lne old by (subst spec_lru_evict.simps) simp
    have real: "evict_loop len c = Inr c'"
      using True d e by (subst evict_loop.simps) simp
    have kl: "k < length G" using k Gne by (cases G rule: rev_cases) auto
    have kl': "k < length (items c)" using kl 1(5) by (metis length_map)
    have "take k (butlast G) = take k G" using kl by (simp add: take_butlast)
    moreover have "take k (items c1) = take k (items c)"
      using kl' by (simp add: c1_def take_butlast)
    ultimately show ?thesis using real r i f step kl
      by (intro exI [of _ c'] exI [of _ k]) simp
  qed
qed

lemma sorted_desc_distinct:
  "sorted_wrt (\<lambda>a b. fst a > fst b) (G :: (nat \<times> 'b) list) \<Longrightarrow> distinct (map fst G)"
proof (induction G)
  case Nil
  then show ?case by simp
next
  case (Cons x G)
  then have "\<forall>y \<in> set G. fst y < fst x" by simp
  then have "fst x \<notin> fst ` set G" by force
  with Cons show ?case by simp
qed

lemma lookup_parallel:
  assumes ro: "recency_order live G" and m: "map snd G = items c"
    and lt: "\<forall>e \<in> set live. fst e < t"
  shows "\<exists>G'. recency_order (spec_lru_lookup t h p u live) G' \<and>
           map snd G' = items (snd (get_cached_item h p u c)) \<and>
           (\<forall>e \<in> set (spec_lru_lookup t h p u live). fst e < Suc t)"
proof (cases "scan_cache h p u [] (items c)")
  case None
  then have nomatch: "\<forall>x \<in> set (items c). \<not> (h = host x \<and> p = port x \<and> u = uri x)"
    by (simp add: scan_cache_None)
  have "set live = set G" using ro by (simp add: recency_order_set)
  moreover have "snd ` set G = set (items c)" using m by (metis set_map)
  ultimately have "filter (\<lambda>e. key_of (snd e) = (h, p, u)) live = []"
    using nomatch by (auto simp: filter_empty_conv key_of_def)
  then have "spec_lru_lookup t h p u live = live" by (simp add: spec_lru_lookup_def)
  moreover have "snd (get_cached_item h p u c) = c" using None by (simp add: get_cached_item_def)
  ultimately show ?thesis using ro m lt by (intro exI [of _ G]) (auto intro: less_SucI)
next
  case (Some r)
  obtain x ys where r: "r = (x, ys)" by (cases r)
  with Some have s: "scan_cache h p u [] (items c) = Some (x, ys)" by simp
  from scan_cache_Some [OF s] obtain a b where
    ab: "items c = a @ x # b" "ys = x # a @ b" "h = host x \<and> p = port x \<and> u = uri x"
      "\<forall>y \<in> set a. \<not> (h = host y \<and> p = port y \<and> u = uri y)" by auto
  define A where "A = take (length a) G"
  define e where "e = G ! length a"
  define B where "B = drop (Suc (length a)) G"
  have len: "length G = length a + Suc (length b)" using m ab(1) by (metis length_map length_append length_Cons)
  then have G: "G = A @ e # B"
    unfolding A_def e_def B_def by (simp add: id_take_nth_drop)
  have mA: "map snd A = a" unfolding A_def using m ab(1) by (simp add: take_map [symmetric])
  have "length a < length G" using len by simp
  then have "snd (G ! length a) = map snd G ! length a" by (rule nth_map [symmetric])
  then have me: "snd e = x" unfolding e_def by (simp add: m ab(1))
  have mB: "map snd B = b" unfolding B_def using m ab(1) by (simp add: drop_map [symmetric])
  have sorted: "sorted_wrt (\<lambda>a b. fst a > fst b) G" using ro by (simp add: recency_order_def)
  have dist: "distinct (map fst G)" using sorted by (rule sorted_desc_distinct)
  have setl: "set live = set G" using ro by (simp add: recency_order_set)
  have eA: "\<forall>y \<in> set A. fst y \<noteq> fst e" and eB: "\<forall>y \<in> set B. fst y < fst e"
    using sorted dist unfolding G by (auto simp: sorted_wrt_append)
  have noA: "\<forall>y \<in> set A. key_of (snd y) \<noteq> (h, p, u)"
    using ab(4) mA by (force simp: key_of_def)
  have ke: "key_of (snd e) = (h, p, u)" using ab(3) me by (simp add: key_of_def)
  let ?hits = "filter (\<lambda>e. key_of (snd e) = (h, p, u)) live"
  have "e \<in> set ?hits" using ke setl G by simp
  then have hne: "?hits \<noteq> []" by (metis empty_iff empty_set)
  have mx: "Max (set (map fst ?hits)) = fst e"
  proof (rule Max_eqI)
    show "finite (set (map fst ?hits))" by simp
    show "fst e \<in> set (map fst ?hits)" using \<open>e \<in> set ?hits\<close> by (metis image_eqI set_map)
    fix y assume "y \<in> set (map fst ?hits)"
    then obtain z where z: "z \<in> set live" "key_of (snd z) = (h, p, u)" "y = fst z" by auto
    then have "z \<in> set A \<or> z = e \<or> z \<in> set B" using setl G by auto
    with z noA eB show "y \<le> fst e" by auto
  qed
  let ?f = "\<lambda>y. if fst y = fst e then (t, snd y) else y"
  have sl: "spec_lru_lookup t h p u live = map ?f live"
    using hne mx by (simp add: spec_lru_lookup_def Let_def)
  have fA: "map ?f A = A" using eA by (induction A) auto
  have fB: "map ?f B = B" using eB by (induction B) auto
  have fG: "map ?f G = A @ (t, x) # B" unfolding G using fA fB me by simp
  have "mset (map ?f live) = mset (map ?f G)" using ro by (simp add: recency_order_def)
  then have ms: "mset ((t, x) # A @ B) = mset (map ?f live)" by (simp add: fG)
  have ltG: "\<forall>y \<in> set G. fst y < t" using lt setl by simp
  have "sorted_wrt (\<lambda>a b. fst a > fst b) (A @ B)"
    using sorted unfolding G by (auto simp: sorted_wrt_append)
  then have so: "sorted_wrt (\<lambda>a b. fst a > fst b) ((t, x) # A @ B)"
    using ltG unfolding G by auto
  have ro': "recency_order (spec_lru_lookup t h p u live) ((t, x) # A @ B)"
    using ms so by (simp add: recency_order_def sl)
  have it: "items (snd (get_cached_item h p u c)) = x # a @ b"
    using s ab(2) by (simp add: get_cached_item_def)
  have m': "map snd ((t, x) # A @ B) = items (snd (get_cached_item h p u c))"
    using mA mB it by simp
  have "set ((t, x) # A @ B) = set (map ?f live)" using ms by (rule mset_eq_setD)
  moreover have "\<forall>y \<in> set ((t, x) # A @ B). fst y < Suc t"
    using ltG unfolding G by (auto intro: less_SucI)
  ultimately have lt': "\<forall>y \<in> set (spec_lru_lookup t h p u live). fst y < Suc t"
    by (simp only: sl)
  from ro' m' lt' show ?thesis by blast
qed

lemma insert_parallel:
  assumes inv: "cache_inv c" and rel: "lru_rel t s c"
    and len: "0 \<le> len" "len < MAX_OBJECT_SIZE"
  shows "\<exists>c'. cache_insert h p u cachebuf len c = Inr c' \<and> cache_inv c' \<and>
           lru_rel (Suc t) (spec_lru_insert t h p u cachebuf len s) c'"
proof -
  obtain live gone where s: "s = (live, gone)" by (cases s)
  from rel s obtain G where G: "recency_order live G" "map snd G = items c"
    and gone: "gone = freed c" and lt: "\<forall>e \<in> set live. fst e < t"
    by (auto simp: lru_rel_def)
  have le: "len \<le> MAX_CACHE_SIZE"
    using len(2) by (simp add: MAX_OBJECT_SIZE_def MAX_CACHE_SIZE_def)
  from inv have sz: "cachesize c = sum_len (items c)" by (simp add: cache_inv_def)
  from evict_parallel [OF sz le G gone] obtain c1 k where
    e: "evict_loop len c = Inr c1" and k: "k \<le> length G" and
    r: "recency_order (fst (spec_lru_evict len (live, gone))) (take k G)" and
    i: "items c1 = take k (items c)" and
    f: "snd (spec_lru_evict len (live, gone)) = freed c1"
    by blast
  obtain live' gone' where ev: "spec_lru_evict len (live, gone) = (live', gone')"
    by (cases "spec_lru_evict len (live, gone)")
  let ?new = "\<lparr>length_ci = len, host = h, port = p, uri = u, data = take (nat len) cachebuf\<rparr>"
  define c' where "c' = c1\<lparr>items := ?new # items c1,
                  cachehead_length := cachehead_length c1 + 1,
                  cachesize := cachesize c1 + len\<rparr>"
  have ins: "cache_insert h p u cachebuf len c = Inr c'"
    using e by (simp add: cache_insert_def c'_def)
  from cache_insert_inv [OF inv len, of h p u cachebuf] ins have inv': "cache_inv c'" by simp
  have sp: "spec_lru_insert t h p u cachebuf len s = ((t, ?new) # live', gone')"
    using s ev by (simp add: spec_lru_insert_def)
  have setG: "set G = set live" using G(1) by (rule recency_order_set)
  have ltk: "\<forall>e \<in> set (take k G). fst e < t"
    using lt setG by (auto dest: in_set_takeD)
  have ro: "recency_order ((t, ?new) # live') ((t, ?new) # take k G)"
    using r ev ltk by (auto simp: recency_order_def)
  have "set live' = set (take k G)" using r ev by (simp add: recency_order_set)
  then have lt': "\<forall>e \<in> set ((t, ?new) # live'). fst e < Suc t"
    using ltk by (auto intro: less_SucI)
  have "map snd (take k G) = take k (map snd G)" by (rule take_map [symmetric])
  then have m: "map snd ((t, ?new) # take k G) = items c'"
    using i G(2) by (simp add: c'_def)
  have g: "gone' = freed c'" using f ev by (simp add: c'_def)
  from ro m g lt' have "lru_rel (Suc t) ((t, ?new) # live', gone') c'"
    unfolding lru_rel_def by (auto simp del: set_simps)
  with ins inv' sp show ?thesis by simp
qed

lemma lookup_rel:
  assumes "lru_rel t s c"
  shows "lru_rel (Suc t) (spec_lru_lookup t h p u (fst s), snd s) (snd (get_cached_item h p u c))"
proof -
  from assms obtain G where G: "recency_order (fst s) G" "map snd G = items c"
    and gone: "snd s = freed c" and lt: "\<forall>e \<in> set (fst s). fst e < t"
    by (auto simp: lru_rel_def)
  from lookup_parallel [OF G lt, of h p u] obtain G' where
    "recency_order (spec_lru_lookup t h p u (fst s)) G'"
    "map snd G' = items (snd (get_cached_item h p u c))"
    "\<forall>e \<in> set (spec_lru_lookup t h p u (fst s)). fst e < Suc t" by blast
  moreover have "freed (snd (get_cached_item h p u c)) = freed c"
    by (auto simp: get_cached_item_def split: option.splits)
  ultimately show ?thesis using gone unfolding lru_rel_def by auto
qed

lemma run_ops_rel:
  "cache_inv c \<Longrightarrow> lru_rel t s c \<Longrightarrow> list_all op_ok ops \<Longrightarrow>
   \<exists>c'. run_ops ops c = Inr c' \<and> cache_inv c' \<and>
        lru_rel (t + length ops) (spec_lru_run t ops s) c'"
proof (induction ops arbitrary: c t s)
  case Nil
  then show ?case by simp
next
  case (Cons x xs)
  from Cons.prems(3) have ok: "op_ok x" "list_all op_ok xs" by simp_all
  show ?case
  proof (cases x)
    case (Lookup h p u)
    let ?c1 = "snd (get_cached_item h p u c)"
    have a: "apply_op x c = Inr ?c1" using Lookup by simp
    with apply_op_inv [OF Cons.prems(1) ok(1)] have inv1: "cache_inv ?c1" by simp
    have rel1: "lru_rel (Suc t) (spec_lru_lookup t h p u (fst s), snd s) ?c1"
      using Cons.prems(2) by (rule lookup_rel)
    from Cons.IH [OF inv1 rel1 ok(2)] a Lookup show ?thesis by simp
  next
    case (Insert h p u cachebuf len)
    with ok(1) have len: "0 \<le> len" "len < MAX_OBJECT_SIZE" by simp_all
    from insert_parallel [OF Cons.prems(1,2) len, of h p u cachebuf] obtain c1 where
      a: "cache_insert h p u cachebuf len c = Inr c1" and inv1: "cache_inv c1" and
      rel1: "lru_rel (Suc t) (spec_lru_insert t h p u cachebuf len s) c1" by blast
    from Cons.IH [OF inv1 rel1 ok(2)] a Insert show ?thesis by simp
  qed
qed

lemma init_lru_rel: "lru_rel 0 ([], []) init_cache"
  by (simp add: lru_rel_def recency_order_def init_cache_def)

lemma get_cached_item_promotes:
  "(count_key h p u (items c) = 0 \<and> get_cached_item h p u c = (None, c)) \<or>
   (\<exists>a it b. items c = a @ it # b \<and> count_key h p u a = 0 \<and> key_of it = (h, p, u) \<and>
       get_cached_item h p u c = (Some it, c\<lparr>items := it # a @ b\<rparr>))"
proof (cases "scan_cache h p u [] (items c)")
  case None
  then have "get_cached_item h p u c = (None, c)" by (simp add: get_cached_item_def)
  moreover from None have "count_key h p u (items c) = 0"
    by (auto simp: scan_cache_None count_key_def)
  ultimately show ?thesis by simp
next
  case (Some r)
  obtain it ys where r: "r = (it, ys)" by (cases r)
  with Some have s: "scan_cache h p u [] (items c) = Some (it, ys)" by simp
  from scan_cache_Some [OF s] obtain a b where
    ab: "items c = a @ it # b" "ys = it # a @ b" "h = host it \<and> p = port it \<and> u = uri it"
      "\<forall>y \<in> set a. \<not> (h = host y \<and> p = port y \<and> u = uri y)" by auto
  have "count_key h p u a = 0" using ab(4) by (auto simp: count_key_def)
  moreover have "key_of it = (h, p, u)" using ab(3) by (simp add: key_of_def)
  moreover have "get_cached_item h p u c = (Some it, c\<lparr>items := it # a @ b\<rparr>)"
    using s ab(2) by (simp add: get_cached_item_def)
  ultimately show ?thesis using ab(1) by blast
qed

lemma spec_lru_run_example: "spec_lru_run 0 (map example_insert [''a'', ''b'', ''c'', ''d'', ''e'', ''f'', ''g'', ''h'', ''i'', ''j''] @
          [Lookup ''a'' ''80'' ''/'']) ([], []) =
   ([(9, example_item ''j''), (8, example_item ''i''), (7, example_item ''h''), (6, example_item ''g''), (5, example_item ''f''),
     (4, example_item ''e''), (3, example_item ''d''), (2, example_item ''c''), (1, example_item ''b''), (10, example_item ''a'')], [])"
  by (simp add: example_insert_def example_item_def spec_lru_insert_def spec_lru_evict.simps spec_lru_lookup_def
        key_of_def MAX_CACHE_SIZE_def)

section \<open>Properties of the handler\<close>

lemma relay_out:
  "[] \<notin> set chunks \<Longrightarrow> snd (snd (snd (relay chunks valid len cachebuf out))) = out @ chunks"
  by (induction chunks valid len cachebuf out rule: relay.induct) (auto simp: Let_def)

lemma relay_valid:
  "[] \<notin> set chunks \<Longrightarrow> relay chunks valid len cachebuf out = (True, len', cachebuf', out') \<Longrightarrow>
   valid \<and> len' = len + int (length (concat chunks)) \<and> cachebuf' = cachebuf @ concat chunks \<and>
   (len < MAX_OBJECT_SIZE \<longrightarrow> len' < MAX_OBJECT_SIZE)"
  by (induction chunks valid len cachebuf out rule: relay.induct)
     (auto simp: Let_def split: if_splits)

lemma relay_oversized:
  assumes "[] \<notin> set chunks" and "MAX_OBJECT_SIZE \<le> int (length (concat chunks))"
  shows "fst (relay chunks True 0 [] []) = False"
proof (rule ccontr)
  assume "fst (relay chunks True 0 [] []) \<noteq> False"
  then obtain len' cachebuf' out' where
    "relay chunks True 0 [] [] = (True, len', cachebuf', out')"
    by (cases "relay chunks True 0 [] []") auto
  from relay_valid [OF assms(1) this] assms(2) show False
    by (simp add: MAX_OBJECT_SIZE_def)
qed

lemma count_key_miss:
  "fst (get_cached_item h p u c) = None \<Longrightarrow> count_key h p u (items c) = 0"
  by (auto simp: get_cached_item_def count_key_def scan_cache_None split: option.splits)

lemma get_cached_item_miss:
  "fst (get_cached_item h p u c) = None \<Longrightarrow> get_cached_item h p u c = (None, c)"
  by (auto simp: get_cached_item_def split: option.splits)

lemma evict_loop_items:
  "evict_loop len c = Inr c' \<Longrightarrow> \<exists>k. items c' = take k (items c)"
proof (induction len c rule: evict_loop.induct)
  case (1 len c)
  show ?case
  proof (cases "cachesize c + len > MAX_CACHE_SIZE")
    case False
    with 1(2) have "c' = c" by (simp add: evict_loop.simps)
    then show ?thesis by (intro exI [of _ "length (items c)"]) simp
  next
    case True
    with 1(2) obtain c1 where d: "delete_last_cache c = Inr c1" and e: "evict_loop len c1 = Inr c'"
      by (subst (asm) evict_loop.simps) (auto split: sum.splits)
    from d have c1: "items c1 = butlast (items c)"
      by (auto simp: delete_last_cache_eq split: if_splits)
    from 1(1) [OF True d e] obtain k where "items c' = take k (items c1)" by blast
    then have "items c' = take (min k (length (items c) - 1)) (items c)"
      by (simp add: c1 butlast_conv_take min.commute)
    then show ?thesis by blast
  qed
qed

lemma cache_insert_items:
  "cache_insert h p u cachebuf len c = Inr c' \<Longrightarrow>
   \<exists>k. items c' = \<lparr>length_ci = len, host = h, port = p, uri = u,
                     data = take (nat len) cachebuf\<rparr> # take k (items c)"
  by (auto simp: cache_insert_def split: sum.splits dest!: evict_loop_items)

lemma distinct_keys_take: "distinct_keys xs \<Longrightarrow> distinct_keys (take k xs)"
  by (simp add: distinct_keys_def take_map [symmetric])

lemma count_key_zero_iff:
  "count_key h p u xs = 0 \<longleftrightarrow> (h, p, u) \<notin> set (map key_of xs)"
  by (auto simp: count_key_def key_of_def filter_empty_conv)

lemma count_key_take_zero: "count_key h p u xs = 0 \<Longrightarrow> count_key h p u (take k xs) = 0"
  by (auto simp: count_key_zero_iff dest: in_set_takeD)

lemma get_cached_item_distinct:
  "distinct_keys (items c) \<Longrightarrow> distinct_keys (items (snd (get_cached_item h p u c)))"
  by (auto simp: get_cached_item_def distinct_keys_def split: option.splits
           dest!: scan_cache_Some)

lemma get_cached_item_hit_count:
  assumes "distinct_keys (items c)" and "get_cached_item h p u c = (Some it, c1)"
  shows "count_key h p u (items c1) = 1"
proof -
  from assms(2) obtain ys where s: "scan_cache h p u [] (items c) = Some (it, ys)"
    and c1: "items c1 = ys"
    by (auto simp: get_cached_item_def split: option.splits)
  from scan_cache_Some [OF s] obtain a b where
    ab: "items c = a @ it # b" "ys = it # a @ b" "h = host it \<and> p = port it \<and> u = uri it"
      "\<forall>x \<in> set a. \<not> (h = host x \<and> p = port x \<and> u = uri x)" by auto
  from assms(1) ab(1,3) have "(h, p, u) \<notin> key_of ` set b"
    by (simp add: distinct_keys_def key_of_def)
  then have "\<forall>x \<in> set b. key_of x \<noteq> (h, p, u)"
    by force
  then have "filter (\<lambda>x. h = host x \<and> p = port x \<and> u = uri x) b = []"
    by (auto simp: filter_empty_conv key_of_def)
  moreover have "filter (\<lambda>x. h = host x \<and> p = port x \<and> u = uri x) a = []"
    using ab(4) by (auto simp: filter_empty_conv)
  ultimately show ?thesis using ab(2,3) c1 by (simp add: count_key_def)
qed

lemma miss_then_insert:
  assumes "distinct_keys (items c)" and "fst (get_cached_item h p u c) = None"
    and "cache_insert h p u cachebuf len c = Inr c'"
  shows "distinct_keys (items c') \<and> count_key h p u (items c') = 1"
proof -
  from cache_insert_items [OF assms(3)] obtain k where
    k: "items c' = \<lparr>length_ci = len, host = h, port = p, uri = u,
                     data = take (nat len) cachebuf\<rparr> # take k (items c)" by blast
  have z: "count_key h p u (take k (items c)) = 0"
    using count_key_miss [OF assms(2)] by (rule count_key_take_zero)
  then have "(h, p, u) \<notin> set (map key_of (take k (items c)))"
    by (simp add: count_key_zero_iff)
  moreover have "distinct_keys (take k (items c))"
    using assms(1) by (rule distinct_keys_take)
  ultimately have "distinct_keys (items c')"
    by (simp add: k distinct_keys_def key_of_def)
  moreover have "count_key h p u (items c') = 1"
    using z by (simp add: k count_key_def)
  ultimately show ?thesis by simp
qed

lemma proxy_cache_cases:
  assumes "proxy e c = Inr r"
  shows "cache_after r = c \<or>
     (\<exists>h p u. cache_after r = snd (get_cached_item h p u c)) \<or>
     (\<exists>h p u cachebuf len. fst (get_cached_item h p u c) = None \<and>
         cache_insert h p u cachebuf len c = Inr (cache_after r))"
proof (cases "client_lines e")
  case Nil
  with assms show ?thesis by (auto simp: proxy_def)
next
  case (Cons reqline hdrs)
  show ?thesis
  proof (cases "check_request_line reqline")
    case (Inl err)
    with assms Cons show ?thesis by (auto simp: proxy_def)
  next
    case (Inr t)
    with assms Cons obtain m url version where
      t: "t = (Some m, Some url, version)"
      by (cases t; cases "fst t"; cases "fst (snd t)") (auto simp: proxy_def)
    with assms Cons Inr obtain h p u where pu: "parse_url url = Inr (h, p, u)"
      by (cases "parse_url url") (auto simp: proxy_def)
    show ?thesis
    proof (cases "fst (get_cached_item h p u c)")
      case (Some it)
      then obtain c1 where g: "get_cached_item h p u c = (Some it, c1)"
        by (cases "get_cached_item h p u c") simp
      with assms Cons Inr t pu have "cache_after r = c1"
        by (auto simp: proxy_def)
      with g have "cache_after r = snd (get_cached_item h p u c)" by simp
      then show ?thesis by blast
    next
      case None
      note miss = get_cached_item_miss [OF None]
      obtain valid len cachebuf out where
        rl: "relay (server_chunks e) True 0 [] [] = (valid, len, cachebuf, out)"
        by (cases "relay (server_chunks e) True 0 [] []") auto
      show ?thesis
      proof (cases "connect_ok e \<and> valid")
        case False
        with assms Cons Inr t pu miss rl have "cache_after r = c"
          by (auto simp: proxy_def Let_def split: if_splits)
        then show ?thesis by simp
      next
        case True
        with assms Cons Inr t pu miss rl
        have "cache_insert h p u cachebuf len c = Inr (cache_after r)"
          by (auto simp: proxy_def Let_def split: sum.splits)
        with None show ?thesis by blast
      qed
    qed
  qed
qed

text \<open>
  What the handler sends and does on the paths after a lookup miss: the header loop is a
  filter on the lines before the first \<open>CR LF\<close> line; a failed connect ends the run with
  the connection still open; after a successful one the server gets the rewritten request
  line, the lines the loop let through and the fixed block.
\<close>

lemma forward_headers_eq:
  "forward_headers ls =
     filter (\<lambda>buf. \<not> strncmp_eq buf ''User-Agent'' 10 \<and> \<not> strncmp_eq buf ''Connection'' 10 \<and>
                   \<not> strncmp_eq buf ''Proxy-Connection'' 16)
       (takeWhile (\<lambda>buf. buf \<noteq> [CR, LF]) ls)"
  by (induction ls) auto

lemma proxy_connect_failure:
  assumes "client_lines e = reqline # hdrs"
    and "check_request_line reqline = Inr (Some m, Some url, version)"
    and "parse_url url = Inr (h, p, u)"
    and "fst (get_cached_item h p u c) = None"
    and "\<not> connect_ok e"
  shows "proxy e c = Inr \<lparr>to_client = [bad_request], to_server = [], connfd_closed = False,
                         target_freed = True, cache_after = c\<rparr>"
  using assms(1,2,3,5) get_cached_item_miss [OF assms(4)] by (simp add: proxy_def)

lemma proxy_forwarded_request:
  assumes "client_lines e = reqline # hdrs"
    and "check_request_line reqline = Inr (Some m, Some url, version)"
    and "parse_url url = Inr (h, p, u)"
    and "fst (get_cached_item h p u c) = None"
    and "connect_ok e"
    and "proxy e c = Inr r"
  shows "to_server r = (m @ [SP] @ u @ [SP] @ version @ [CR, LF]) # forward_headers hdrs @
                         [client_res_hdr]"
  using assms(1,2,3,5,6) get_cached_item_miss [OF assms(4)]
  by (auto simp: proxy_def Let_def split: prod.splits if_splits sum.splits)

section \<open>Properties of the request line parser\<close>

lemma strtok_single_token:
  assumes "m \<noteq> []" and "\<forall>c \<in> set m. c \<notin> set delim" and "d \<in> set delim"
  shows "strtok (m @ d # r) delim = (Some m, r)"
proof -
  from assms(1,2) have hd: "hd m \<notin> set delim" by (cases m) auto
  with assms(1) have 1: "dropWhile (\<lambda>c. c \<in> set delim) (m @ d # r) = m @ d # r"
    by (cases m) auto
  have 2: "takeWhile (\<lambda>c. c \<notin> set delim) (m @ d # r) = m"
    using assms(2,3) by (simp add: takeWhile_tail)
  have 3: "dropWhile (\<lambda>c. c \<notin> set delim) (m @ d # r) = d # r"
    using assms(2,3) by (simp add: dropWhile_append3)
  show ?thesis using assms(1) by (simp add: strtok_def 1 2 3)
qed

lemma strtok_last_token:
  assumes "v \<noteq> []" and "\<forall>c \<in> set v. c \<notin> set delim" and "t = [] \<or> hd t \<in> set delim"
  shows "fst (strtok (v @ t) delim) = Some v"
proof (cases t)
  case Nil
  from assms(1,2) have hd: "hd v \<notin> set delim" by (cases v) auto
  with assms(1) have 1: "dropWhile (\<lambda>c. c \<in> set delim) v = v" by (cases v) auto
  show ?thesis using assms(1,2) Nil by (simp add: strtok_def 1)
next
  case (Cons d r)
  with assms(3) have "d \<in> set delim" by simp
  from strtok_single_token [OF assms(1,2) this] Cons show ?thesis by simp
qed

lemma check_request_line_wellformed:
  assumes "m \<noteq> []" "SP \<notin> set m" "u \<noteq> []" "SP \<notin> set u"
    and "v = ''HTTP/1.0'' \<or> v = ''HTTP/1.1''"
    and "t = [] \<or> hd t = CR \<or> hd t = LF"
  shows "check_request_line (m @ [SP] @ u @ [SP] @ v @ t) = Inr (Some m, Some u, v)"
proof -
  have 1: "strtok (m @ SP # u @ SP # v @ t) [SP] = (Some m, u @ SP # v @ t)"
    using assms(1,2) by (intro strtok_single_token) auto
  have 2: "strtok (u @ SP # v @ t) [SP] = (Some u, v @ t)"
    using assms(3,4) by (intro strtok_single_token) auto
  have "v \<noteq> []" "\<forall>c \<in> set v. c \<notin> set [CR, LF]"
    using assms(5) by (auto simp: CR_def LF_def)
  moreover have "t = [] \<or> hd t \<in> set [CR, LF]" using assms(6) by auto
  ultimately have 3: "fst (strtok (v @ t) [CR, LF]) = Some v"
    by (rule strtok_last_token)
  then obtain s3 where 3: "strtok (v @ t) [CR, LF] = (Some v, s3)"
    by (cases "strtok (v @ t) [CR, LF]") auto
  show ?thesis using assms(5) 1 2 3 by (auto simp: check_request_line_def)
qed

lemma tokens_sep_Cons: "sep x \<Longrightarrow> tokens sep (x # xs) = tokens sep xs"
  by (subst (1 2) tokens.simps) simp

lemma tokens_drop1:
  "r = [] \<or> sep (hd r) \<Longrightarrow> tokens sep (drop 1 r) = tokens sep r"
  by (cases r) (auto simp: tokens_sep_Cons)

lemma tokens_strtok:
  assumes "strtok s [SP] = (Some t, r)"
  shows "tokens (\<lambda>c. c = SP) s = t # tokens (\<lambda>c. c = SP) r"
proof -
  let ?s1 = "dropWhile (\<lambda>c. c = SP) s"
  from assms have ne: "?s1 \<noteq> []" and t: "t = takeWhile (\<lambda>c. c \<noteq> SP) ?s1"
    and r: "r = drop 1 (dropWhile (\<lambda>c. c \<noteq> SP) ?s1)"
    by (auto simp: strtok_def Let_def split: if_splits)
  let ?d = "dropWhile (\<lambda>c. c \<noteq> SP) ?s1"
  have "?d = [] \<or> hd ?d = SP" using hd_dropWhile [of "\<lambda>c. c \<noteq> SP" ?s1] by auto
  then have "tokens (\<lambda>c. c = SP) r = tokens (\<lambda>c. c = SP) ?d"
    unfolding r by (intro tokens_drop1) auto
  then show ?thesis using ne t by (subst tokens.simps) (simp add: Let_def)
qed

lemma strtok_None: "strtok s delim = (None, r) \<Longrightarrow> r = []"
  by (auto simp: strtok_def Let_def split: if_splits)

lemma strtok_Some_nonempty: "strtok s delim = (Some t, r) \<Longrightarrow> s \<noteq> []"
  by (auto simp: strtok_def Let_def split: if_splits)

lemma check_request_line_Inr:
  assumes "check_request_line line = Inr (a, b, v)"
  shows "\<exists>m u s2 s3. a = Some m \<and> b = Some u \<and>
     tokens (\<lambda>c. c = SP) line = m # u # tokens (\<lambda>c. c = SP) s2 \<and>
     strtok s2 [CR, LF] = (Some v, s3) \<and> (v = ''HTTP/1.1'' \<or> v = ''HTTP/1.0'')"
proof -
  obtain a' s1 where 1: "strtok line [SP] = (a', s1)" by (cases "strtok line [SP]") auto
  obtain b' s2 where 2: "strtok s1 [SP] = (b', s2)" by (cases "strtok s1 [SP]") auto
  obtain v' s3 where 3: "strtok s2 [CR, LF] = (v', s3)" by (cases "strtok s2 [CR, LF]") auto
  from assms 1 2 3 have v: "v' = Some v" "v = ''HTTP/1.1'' \<or> v = ''HTTP/1.0''" "a = a'" "b = b'"
    by (auto simp: check_request_line_def split: if_splits option.splits)
  from 3 v(1) have "s2 \<noteq> []" by (auto dest: strtok_Some_nonempty)
  with 2 obtain u where u: "b' = Some u" by (cases b') (auto dest: strtok_None)
  with 2 have "s1 \<noteq> []" by (auto dest: strtok_Some_nonempty)
  with 1 obtain m where m: "a' = Some m" by (cases a') (auto dest: strtok_None)
  from 1 m have "tokens (\<lambda>c. c = SP) line = m # tokens (\<lambda>c. c = SP) s1"
    by (intro tokens_strtok) simp
  moreover from 2 u have "tokens (\<lambda>c. c = SP) s1 = u # tokens (\<lambda>c. c = SP) s2"
    by (intro tokens_strtok) simp
  ultimately show ?thesis using v m u 3 by auto
qed

lemma version_token:
  assumes "strtok s2 [CR, LF] = (Some v, s3)" and "v = ''HTTP/1.1'' \<or> v = ''HTTP/1.0''"
  shows "\<exists>ts. tokens (\<lambda>c. c = SP) s2 = takeWhile (\<lambda>c. c \<noteq> SP) s2 # ts \<and>
     takeWhile (\<lambda>c. c \<noteq> CR \<and> c \<noteq> LF) (takeWhile (\<lambda>c. c \<noteq> SP) s2) \<in> {[], v}"
proof -
  from assms(1) have ne: "s2 \<noteq> []" by (rule strtok_Some_nonempty)
  then obtain x xs where x: "s2 = x # xs" by (cases s2) auto
  from assms(1) have v: "v = takeWhile (\<lambda>c. c \<notin> set [CR, LF]) (dropWhile (\<lambda>c. c \<in> set [CR, LF]) s2)"
    by (auto simp: strtok_def Let_def split: if_splits)
  have nsp: "x \<noteq> SP"
  proof
    assume "x = SP"
    then have "v = SP # takeWhile (\<lambda>c. c \<notin> set [CR, LF]) xs"
      using v x by (simp add: SP_def CR_def LF_def)
    with assms(2) show False by (auto simp: SP_def)
  qed
  then have d: "dropWhile (\<lambda>c. c = SP) s2 = s2" using x by simp
  have tok: "tokens (\<lambda>c. c = SP) s2 =
      takeWhile (\<lambda>c. c \<noteq> SP) s2 # tokens (\<lambda>c. c = SP) (dropWhile (\<lambda>c. c \<noteq> SP) s2)"
    using ne by (subst tokens.simps) (simp add: d Let_def)
  have "takeWhile (\<lambda>c. c \<noteq> CR \<and> c \<noteq> LF) (takeWhile (\<lambda>c. c \<noteq> SP) s2) \<in> {[], v}"
  proof (cases "x = CR \<or> x = LF")
    case True
    then show ?thesis using x nsp by auto
  next
    case False
    then have "v = takeWhile (\<lambda>c. c \<noteq> CR \<and> c \<noteq> LF) s2" using v x by auto
    moreover have "SP \<notin> set v" using assms(2) by (auto simp: SP_def)
    then have "takeWhile (\<lambda>c. c \<noteq> SP) v = v" by auto
    ultimately have "takeWhile (\<lambda>c. c \<noteq> SP) (takeWhile (\<lambda>c. c \<noteq> CR \<and> c \<noteq> LF) s2) = v"
      by simp
    then have "takeWhile (\<lambda>c. c \<noteq> CR \<and> c \<noteq> LF) (takeWhile (\<lambda>c. c \<noteq> SP) s2) = v"
      by (simp add: takeWhile_takeWhile conj_commute)
    then show ?thesis by simp
  qed
  with tok show ?thesis by blast
qed

section \<open>Claims about the cache\<close>

text \<open>
  Claim C10. In a cache state whose \<open>cachesize\<close> equals the sum of its items' lengths, the
  eviction loop run for a new length below \<open>MAX_OBJECT_SIZE\<close> returns a cache: it never
  reaches the null dereference of \<^verbatim>\<open>delete_last_cache\<close> on an empty chain (the only
  fault of the loop), because an empty chain has \<open>cachesize = 0\<close> and
  \<open>MAX_OBJECT_SIZE < MAX_CACHE_SIZE\<close>. The bound on the lengths of the items already in
  the cache is not needed.
\<close>

theorem evict_loop_no_null_deref:
  assumes "cachesize c = sum_len (items c)" and "len < MAX_OBJECT_SIZE"
  shows "\<exists>c'. evict_loop len c = Inr c'"
proof -
  have "len \<le> MAX_CACHE_SIZE"
    using assms(2) by (simp add: MAX_OBJECT_SIZE_def MAX_CACHE_SIZE_def)
  from evict_loop_char [OF assms(1) this] show ?thesis by blast
qed

theorem evict_loop_no_null_deref_witness:
  "cachesize \<lparr>items = replicate 10 \<lparr>length_ci = 102399, host = ''h'', port = ''80'',
                 uri = ''/'', data = replicate 102399 (CHR ''x'')\<rparr>,
               cachehead_length = 10, cachesize = 1023990, freed = []\<rparr>
     = sum_len (items \<lparr>items = replicate 10 \<lparr>length_ci = 102399, host = ''h'', port = ''80'',
                 uri = ''/'', data = replicate 102399 (CHR ''x'')\<rparr>,
               cachehead_length = 10, cachesize = 1023990, freed = []\<rparr>) \<and>
   (102399 :: int) < MAX_OBJECT_SIZE \<and>
   (\<exists>c'. evict_loop 102399 \<lparr>items = replicate 10 \<lparr>length_ci = 102399, host = ''h'',
                 port = ''80'', uri = ''/'', data = replicate 102399 (CHR ''x'')\<rparr>,
               cachehead_length = 10, cachesize = 1023990, freed = []\<rparr> = Inr c')"
proof -
  let ?c = "\<lparr>items = replicate 10 \<lparr>length_ci = 102399, host = ''h'', port = ''80'',
                 uri = ''/'', data = replicate 102399 (CHR ''x'')\<rparr>,
               cachehead_length = 10, cachesize = 1023990, freed = []\<rparr>"
  have a: "cachesize ?c = sum_len (items ?c)"
    by (simp add: sum_len_def sum_list_replicate)
  have b: "(102399 :: int) < MAX_OBJECT_SIZE"
    by (simp add: MAX_OBJECT_SIZE_def)
  from evict_loop_no_null_deref [OF a b] a b show ?thesis by blast
qed

text \<open>
  Claim C1. Take any sequence of lookups and insertions from the empty cache, every
  inserted length a byte count below \<open>MAX_OBJECT_SIZE\<close>. It runs without a fault to a
  state \<open>c\<close> with \<open>cachesize c\<close> equal to the sum of the lengths in the chain (so at
  every point between operations) and between 0 and \<open>MAX_CACHE_SIZE\<close>.

  The chain of \<open>c\<close> is in order of recency: it is the live entries of the time-stamped
  specification run on the same operations, arranged by strictly decreasing time of last
  use, and the nodes freed so far are the entries the specification evicted, oldest
  stamp first, in that order. In \<open>c\<close> a lookup that misses changes nothing, and a lookup
  that hits returns the first entry with the key and moves it to the front, the other
  entries keeping their order.

  A further such insertion returns a state \<open>c'\<close> with the same size properties, whose
  chain is the new item in front of the first \<open>k\<close> items of \<open>c\<close>; the items it freed
  are the other ones, from the tail of the chain forward
  (\<open>rev (drop k (items c))\<close> is appended to the log of freed nodes), and \<open>k\<close> is the
  largest count that fits (\<open>evict_keep\<close>): exactly the least recently used items that
  had to go.
\<close>

theorem lru_eviction_invariant:
  assumes "list_all op_ok ops" and "0 \<le> len" and "len < MAX_OBJECT_SIZE"
  shows "\<exists>c c' k G. run_ops ops init_cache = Inr c \<and>
     cachesize c = sum_len (items c) \<and> 0 \<le> cachesize c \<and> cachesize c \<le> MAX_CACHE_SIZE \<and>
     recency_order (fst (spec_lru_run 0 ops ([], []))) G \<and> map snd G = items c \<and>
     freed c = snd (spec_lru_run 0 ops ([], [])) \<and>
     (\<forall>h' p' u'.
        (count_key h' p' u' (items c) = 0 \<and> get_cached_item h' p' u' c = (None, c)) \<or>
        (\<exists>a it b. items c = a @ it # b \<and> count_key h' p' u' a = 0 \<and>
            key_of it = (h', p', u') \<and>
            get_cached_item h' p' u' c = (Some it, c\<lparr>items := it # a @ b\<rparr>))) \<and>
     cache_insert h p u cachebuf len c = Inr c' \<and>
     cachesize c' = sum_len (items c') \<and> 0 \<le> cachesize c' \<and>
     cachesize c' \<le> MAX_CACHE_SIZE \<and>
     evict_keep len (items c) k \<and>
     items c' = \<lparr>length_ci = len, host = h, port = p, uri = u,
                  data = take (nat len) cachebuf\<rparr> # take k (items c) \<and>
     freed c' = freed c @ rev (drop k (items c))"
proof -
  from run_ops_rel [OF init_cache_inv init_lru_rel assms(1)] obtain c where
    c: "run_ops ops init_cache = Inr c" "cache_inv c" and
    rel: "lru_rel (length ops) (spec_lru_run 0 ops ([], [])) c" by auto
  from rel obtain G where G: "recency_order (fst (spec_lru_run 0 ops ([], []))) G"
    "map snd G = items c" and fr: "freed c = snd (spec_lru_run 0 ops ([], []))"
    by (auto simp: lru_rel_def)
  from c(2) have nn: "0 \<le> cachesize c"
    by (simp add: cache_inv_def sum_len_nonneg)
  from cache_insert_char [OF _ assms(3), of c h p u cachebuf] c(2)
  obtain k where k: "evict_keep len (items c) k" and
    i: "cache_insert h p u cachebuf len c =
       Inr (c\<lparr>items := \<lparr>length_ci = len, host = h, port = p, uri = u,
                          data = take (nat len) cachebuf\<rparr> # take k (items c),
               cachesize := sum_len (take k (items c)) + len,
               freed := freed c @ rev (drop k (items c)),
               cachehead_length := cachehead_length c - int (length (items c) - k) + 1\<rparr>)"
    by (auto simp: cache_inv_def)
  define c' where "c' = c\<lparr>items := \<lparr>length_ci = len, host = h, port = p, uri = u,
                          data = take (nat len) cachebuf\<rparr> # take k (items c),
               cachesize := sum_len (take k (items c)) + len,
               freed := freed c @ rev (drop k (items c)),
               cachehead_length := cachehead_length c - int (length (items c) - k) + 1\<rparr>"
  have "\<forall>x \<in> set (take k (items c)). 0 \<le> length_ci x"
    using c(2) by (auto simp: cache_inv_def dest: in_set_takeD)
  then have "0 \<le> sum_len (take k (items c))" by (rule sum_len_nonneg)
  then have "0 \<le> cachesize c'" using assms(2) by (simp add: c'_def)
  moreover have "cachesize c' = sum_len (items c')" "cachesize c' \<le> MAX_CACHE_SIZE"
    "items c' = \<lparr>length_ci = len, host = h, port = p, uri = u,
                  data = take (nat len) cachebuf\<rparr> # take k (items c)"
    "freed c' = freed c @ rev (drop k (items c))"
    using k by (simp_all add: c'_def evict_keep_def)
  moreover have "cache_insert h p u cachebuf len c = Inr c'"
    using i by (simp add: c'_def)
  moreover have "\<forall>h' p' u'.
        (count_key h' p' u' (items c) = 0 \<and> get_cached_item h' p' u' c = (None, c)) \<or>
        (\<exists>a it b. items c = a @ it # b \<and> count_key h' p' u' a = 0 \<and>
            key_of it = (h', p', u') \<and>
            get_cached_item h' p' u' c = (Some it, c\<lparr>items := it # a @ b\<rparr>))"
    using get_cached_item_promotes by blast
  ultimately show ?thesis
    using c k nn G fr unfolding cache_inv_def by blast
qed

text \<open>
  The example: ten insertions under the keys \<open>a\<close> to \<open>j\<close>, then a lookup of \<open>a\<close>, the
  oldest, which moves it to the front. An eleventh insertion evicts \<open>b\<close>, not \<open>a\<close>.
\<close>

theorem lru_eviction_invariant_witness:
  "list_all op_ok (map example_insert [''a'', ''b'', ''c'', ''d'', ''e'', ''f'', ''g'', ''h'', ''i'', ''j''] @
          [Lookup ''a'' ''80'' ''/'']) \<and>
   (0 :: int) \<le> 102399 \<and> (102399 :: int) < MAX_OBJECT_SIZE \<and>
   run_ops (map example_insert [''a'', ''b'', ''c'', ''d'', ''e'', ''f'', ''g'', ''h'', ''i'', ''j''] @
          [Lookup ''a'' ''80'' ''/'']) init_cache =
     Inr \<lparr>items = map example_item [''a'', ''j'', ''i'', ''h'', ''g'', ''f'', ''e'', ''d'', ''c'', ''b''],
          cachehead_length = 10, cachesize = 1023990, freed = []\<rparr> \<and>
   cache_insert ''k'' ''80'' ''/'' (replicate 102399 (CHR ''x'')) 102399
     \<lparr>items = map example_item [''a'', ''j'', ''i'', ''h'', ''g'', ''f'', ''e'', ''d'', ''c'', ''b''],
      cachehead_length = 10, cachesize = 1023990, freed = []\<rparr> =
     Inr \<lparr>items = map example_item [''k'', ''a'', ''j'', ''i'', ''h'', ''g'', ''f'', ''e'', ''d'', ''c''],
          cachehead_length = 10, cachesize = 1023990, freed = [example_item ''b'']\<rparr> \<and>
   (\<exists>k G. recency_order
             (fst (spec_lru_run 0
                (map example_insert [''a'', ''b'', ''c'', ''d'', ''e'', ''f'', ''g'', ''h'', ''i'', ''j''] @
                   [Lookup ''a'' ''80'' ''/'']) ([], []))) G \<and>
          map snd G = map example_item [''a'', ''j'', ''i'', ''h'', ''g'', ''f'', ''e'', ''d'', ''c'', ''b''] \<and>
          evict_keep 102399
            (map example_item [''a'', ''j'', ''i'', ''h'', ''g'', ''f'', ''e'', ''d'', ''c'', ''b'']) k \<and>
          map example_item [''k'', ''a'', ''j'', ''i'', ''h'', ''g'', ''f'', ''e'', ''d'', ''c''] =
            example_item ''k'' #
            take k (map example_item [''a'', ''j'', ''i'', ''h'', ''g'', ''f'', ''e'', ''d'', ''c'', ''b'']))"
proof -
  let ?ops = "map example_insert [''a'', ''b'', ''c'', ''d'', ''e'', ''f'', ''g'', ''h'', ''i'', ''j''] @
          [Lookup ''a'' ''80'' ''/'']"
  let ?c0 = "\<lparr>items = map example_item [''a'', ''j'', ''i'', ''h'', ''g'', ''f'', ''e'', ''d'', ''c'', ''b''],
          cachehead_length = 10, cachesize = 1023990, freed = []\<rparr>"
  have a: "list_all op_ok ?ops" by (simp add: example_insert_def MAX_OBJECT_SIZE_def)
  have z: "(0 :: int) \<le> 102399" by simp
  have b: "(102399 :: int) < MAX_OBJECT_SIZE" by (simp add: MAX_OBJECT_SIZE_def)
  have r: "run_ops ?ops init_cache = Inr ?c0"
    by (simp add: example_insert_def example_item_def init_cache_def cache_insert_def evict_loop.simps
          get_cached_item_def MAX_CACHE_SIZE_def)
  have i: "cache_insert ''k'' ''80'' ''/'' (replicate 102399 (CHR ''x'')) 102399 ?c0 =
     Inr \<lparr>items = map example_item [''k'', ''a'', ''j'', ''i'', ''h'', ''g'', ''f'', ''e'', ''d'', ''c''],
          cachehead_length = 10, cachesize = 1023990, freed = [example_item ''b'']\<rparr>"
    by (simp add: example_item_def cache_insert_def evict_loop.simps delete_last_cache_def
          MAX_CACHE_SIZE_def)
  from lru_eviction_invariant [OF a z b, where h = "''k''" and p = "''80''" and u = "''/''"
      and cachebuf = "replicate 102399 (CHR ''x'')"]
  obtain c c' k G where
    1: "run_ops ?ops init_cache = Inr c" and
    2: "recency_order (fst (spec_lru_run 0 ?ops ([], []))) G" "map snd G = items c" and
    3: "cache_insert ''k'' ''80'' ''/'' (replicate 102399 (CHR ''x'')) 102399 c = Inr c'" and
    4: "evict_keep 102399 (items c) k" and
    5: "items c' = \<lparr>length_ci = 102399, host = ''k'', port = ''80'', uri = ''/'',
           data = take (nat 102399) (replicate 102399 (CHR ''x''))\<rparr> # take k (items c)"
    by blast
  from 1 r have c: "c = ?c0" by simp
  with 3 i have c': "c' = \<lparr>items = map example_item [''k'', ''a'', ''j'', ''i'', ''h'', ''g'', ''f'', ''e'', ''d'', ''c''],
          cachehead_length = 10, cachesize = 1023990, freed = [example_item ''b'']\<rparr>" by simp
  have f1: "map example_item [''k'', ''a'', ''j'', ''i'', ''h'', ''g'', ''f'', ''e'', ''d'', ''c''] =
            example_item ''k'' #
            take k (map example_item [''a'', ''j'', ''i'', ''h'', ''g'', ''f'', ''e'', ''d'', ''c'', ''b''])"
    using 5 unfolding c c' by (simp add: example_item_def)
  have f2: "map snd G = map example_item [''a'', ''j'', ''i'', ''h'', ''g'', ''f'', ''e'', ''d'', ''c'', ''b'']"
    using 2(2) unfolding c by simp
  have f3: "evict_keep 102399
            (map example_item [''a'', ''j'', ''i'', ''h'', ''g'', ''f'', ''e'', ''d'', ''c'', ''b'']) k"
    using 4 unfolding c by simp
  show ?thesis
    by (intro conjI exI [of _ k] exI [of _ G] a z b r i 2(1) f1 f2 f3)
qed

text \<open>
  Claim C3. When \<open>len\<close> is the length of \<open>dat\<close> and the budget has room for it
  (\<open>cachesize c + len \<le> MAX_CACHE_SIZE\<close>), inserting under a key and looking that key up
  returns an item holding exactly \<open>dat\<close> and \<open>len\<close>, which is the first item of the
  chain, in front of the items of \<open>c\<close>. The per-object ceiling plays no part in it.
\<close>

theorem insert_then_lookup:
  assumes "len = int (length dat)" and "cachesize c + len \<le> MAX_CACHE_SIZE"
  shows "\<exists>c' it. cache_insert h p u dat len c = Inr c' \<and>
     get_cached_item h p u c' = (Some it, c') \<and>
     data it = dat \<and> length_ci it = len \<and> items c' = it # items c"
  using assms by (simp add: cache_insert_def evict_loop.simps get_cached_item_def)


theorem insert_then_lookup_witness:
  "(3 :: int) = int (length ''abc'') \<and> cachesize init_cache + 3 \<le> MAX_CACHE_SIZE \<and>
   (\<exists>c' it. cache_insert ''h'' ''80'' ''/'' ''abc'' 3 init_cache = Inr c' \<and>
     get_cached_item ''h'' ''80'' ''/'' c' = (Some it, c') \<and>
     data it = ''abc'' \<and> length_ci it = 3 \<and> items c' = it # items init_cache)"
proof -
  have a: "(3 :: int) = int (length ''abc'')" by simp
  have b: "cachesize init_cache + 3 \<le> MAX_CACHE_SIZE"
    by (simp add: init_cache_def MAX_CACHE_SIZE_def)
  from insert_then_lookup [OF a b] a b show ?thesis by blast
qed

text \<open>
  Claim C2, as the code has it. The insertion code compares no keys, so run on a cache that
  already holds the key it leaves two items under it (shown after the theorem).
  What keeps keys unique is the order of the handler, which looks the key up first and
  inserts only after a miss. From a chain with at most one item per key: a lookup leaves
  such a chain, and after a hit exactly one item has the key; an insertion after a miss
  leaves such a chain with exactly one item under the key; and every run of \<^verbatim>\<open>proxy\<close>
  that returns leaves such a chain.
\<close>

theorem handler_keeps_keys_distinct:
  assumes "distinct_keys (items c)"
  shows "distinct_keys (items (snd (get_cached_item h p u c))) \<and>
     (\<forall>it c1. get_cached_item h p u c = (Some it, c1) \<longrightarrow> count_key h p u (items c1) = 1) \<and>
     (\<forall>c'. fst (get_cached_item h p u c) = None \<and> cache_insert h p u cachebuf len c = Inr c'
          \<longrightarrow> distinct_keys (items c') \<and> count_key h p u (items c') = 1) \<and>
     (\<forall>r. proxy e c = Inr r \<longrightarrow> distinct_keys (items (cache_after r)))"
proof (intro conjI allI impI)
  show "distinct_keys (items (snd (get_cached_item h p u c)))"
    using assms by (rule get_cached_item_distinct)
next
  fix it c1 assume "get_cached_item h p u c = (Some it, c1)"
  with assms show "count_key h p u (items c1) = 1" by (rule get_cached_item_hit_count)
next
  fix c' assume a: "fst (get_cached_item h p u c) = None \<and> cache_insert h p u cachebuf len c = Inr c'"
  with miss_then_insert [OF assms, of h p u cachebuf len c']
  show "distinct_keys (items c')" "count_key h p u (items c') = 1" by simp_all
next
  fix r assume "proxy e c = Inr r"
  from proxy_cache_cases [OF this] show "distinct_keys (items (cache_after r))"
    using assms get_cached_item_distinct miss_then_insert by (metis)
qed

theorem handler_keeps_keys_distinct_witness:
  "distinct_keys (items \<lparr>items = [\<lparr>length_ci = 1, host = ''h'', port = ''80'', uri = ''/'',
                                   data = ''a''\<rparr>],
                         cachehead_length = 1, cachesize = 1, freed = []\<rparr>) \<and>
   fst (get_cached_item ''g'' ''80'' ''/''
          \<lparr>items = [\<lparr>length_ci = 1, host = ''h'', port = ''80'', uri = ''/'', data = ''a''\<rparr>],
           cachehead_length = 1, cachesize = 1, freed = []\<rparr>) = None \<and>
   cache_insert ''g'' ''80'' ''/'' ''b'' 1
     \<lparr>items = [\<lparr>length_ci = 1, host = ''h'', port = ''80'', uri = ''/'', data = ''a''\<rparr>],
      cachehead_length = 1, cachesize = 1, freed = []\<rparr> =
   Inr \<lparr>items = [\<lparr>length_ci = 1, host = ''g'', port = ''80'', uri = ''/'', data = ''b''\<rparr>,
                 \<lparr>length_ci = 1, host = ''h'', port = ''80'', uri = ''/'', data = ''a''\<rparr>],
        cachehead_length = 2, cachesize = 2, freed = []\<rparr> \<and>
   distinct_keys [\<lparr>length_ci = 1, host = ''g'', port = ''80'', uri = ''/'', data = ''b''\<rparr>,
                  \<lparr>length_ci = 1, host = ''h'', port = ''80'', uri = ''/'', data = ''a''\<rparr>] \<and>
   count_key ''g'' ''80'' ''/''
     [\<lparr>length_ci = 1, host = ''g'', port = ''80'', uri = ''/'', data = ''b''\<rparr>,
      \<lparr>length_ci = 1, host = ''h'', port = ''80'', uri = ''/'', data = ''a''\<rparr>] = 1"
proof -
  let ?c = "\<lparr>items = [\<lparr>length_ci = 1, host = ''h'', port = ''80'', uri = ''/'', data = ''a''\<rparr>],
             cachehead_length = 1, cachesize = 1, freed = []\<rparr>"
  let ?c' = "\<lparr>items = [\<lparr>length_ci = 1, host = ''g'', port = ''80'', uri = ''/'', data = ''b''\<rparr>,
                 \<lparr>length_ci = 1, host = ''h'', port = ''80'', uri = ''/'', data = ''a''\<rparr>],
        cachehead_length = 2, cachesize = 2, freed = []\<rparr>"
  have d: "distinct_keys (items ?c)"
    by (simp add: distinct_keys_def)
  have m: "fst (get_cached_item ''g'' ''80'' ''/'' ?c) = None"
    by (simp add: get_cached_item_def)
  have i: "cache_insert ''g'' ''80'' ''/'' ''b'' 1 ?c = Inr ?c'"
    by (simp add: cache_insert_def evict_loop.simps MAX_CACHE_SIZE_def)
  from handler_keeps_keys_distinct [OF d, of "''g''" "''80''" "''/''" "''b''" 1] m i
  have "distinct_keys (items ?c') \<and> count_key ''g'' ''80'' ''/'' (items ?c') = 1"
    by blast
  with d m i show ?thesis by simp
qed

text \<open>
  The insertion on its own, on a cache that holds the key: two items under the key.
\<close>

theorem insert_duplicates_key:
  "count_key ''h'' ''80'' ''/''
     (items \<lparr>items = [\<lparr>length_ci = 1, host = ''h'', port = ''80'', uri = ''/'', data = ''a''\<rparr>],
             cachehead_length = 1, cachesize = 1, freed = []\<rparr>) = 1 \<and>
   cache_insert ''h'' ''80'' ''/'' ''b'' 1
     \<lparr>items = [\<lparr>length_ci = 1, host = ''h'', port = ''80'', uri = ''/'', data = ''a''\<rparr>],
      cachehead_length = 1, cachesize = 1, freed = []\<rparr> =
   Inr \<lparr>items = [\<lparr>length_ci = 1, host = ''h'', port = ''80'', uri = ''/'', data = ''b''\<rparr>,
                 \<lparr>length_ci = 1, host = ''h'', port = ''80'', uri = ''/'', data = ''a''\<rparr>],
        cachehead_length = 2, cachesize = 2, freed = []\<rparr> \<and>
   count_key ''h'' ''80'' ''/''
     [\<lparr>length_ci = 1, host = ''h'', port = ''80'', uri = ''/'', data = ''b''\<rparr>,
      \<lparr>length_ci = 1, host = ''h'', port = ''80'', uri = ''/'', data = ''a''\<rparr>] = 2"
  by (simp add: count_key_def cache_insert_def evict_loop.simps MAX_CACHE_SIZE_def)

section \<open>Claims about the parsers\<close>

text \<open>
  Claim C4, as the code has it. \<^verbatim>\<open>check_request_line\<close> splits on the space character
  only, and ends the version at a carriage return or line feed. (1) A line
  \<open>METHOD SP URL SP VERSION\<close>, followed by nothing or by text that starts with CR or LF,
  with METHOD and URL non-empty and free of spaces and VERSION one of \<open>HTTP/1.0\<close> and
  \<open>HTTP/1.1\<close>, is accepted with exactly those three tokens. (2) A line with fewer than
  three space-separated tokens is rejected. (3) A line whose third space-separated token,
  read up to its first CR or LF, is non-empty and neither \<open>HTTP/1.0\<close> nor \<open>HTTP/1.1\<close> is
  rejected. The only error value is \<open>MalformedRequestLine\<close>.
\<close>

theorem check_request_line_space_separated:
  "(m \<noteq> [] \<and> SP \<notin> set m \<and> u \<noteq> [] \<and> SP \<notin> set u \<and>
    (v = ''HTTP/1.0'' \<or> v = ''HTTP/1.1'') \<and> (t = [] \<or> hd t = CR \<or> hd t = LF)
      \<longrightarrow> check_request_line (m @ [SP] @ u @ [SP] @ v @ t) = Inr (Some m, Some u, v)) \<and>
   (length (tokens (\<lambda>c. c = SP) line) < 3
      \<longrightarrow> check_request_line line = Inl MalformedRequestLine) \<and>
   (3 \<le> length (tokens (\<lambda>c. c = SP) line) \<and>
    takeWhile (\<lambda>c. c \<noteq> CR \<and> c \<noteq> LF) (tokens (\<lambda>c. c = SP) line ! 2)
       \<notin> {[], ''HTTP/1.0'', ''HTTP/1.1''}
      \<longrightarrow> check_request_line line = Inl MalformedRequestLine)"
proof (intro conjI impI)
  assume "m \<noteq> [] \<and> SP \<notin> set m \<and> u \<noteq> [] \<and> SP \<notin> set u \<and>
    (v = ''HTTP/1.0'' \<or> v = ''HTTP/1.1'') \<and> (t = [] \<or> hd t = CR \<or> hd t = LF)"
  then show "check_request_line (m @ [SP] @ u @ [SP] @ v @ t) = Inr (Some m, Some u, v)"
    by (intro check_request_line_wellformed) simp_all
next
  assume few: "length (tokens (\<lambda>c. c = SP) line) < 3"
  show "check_request_line line = Inl MalformedRequestLine"
  proof (cases "check_request_line line")
    case (Inl e)
    then show ?thesis by (cases e) simp
  next
    case (Inr r)
    obtain a b w where "r = (a, b, w)" by (cases r) auto
    with Inr have ok: "check_request_line line = Inr (a, b, w)" by simp
    from check_request_line_Inr [OF ok] obtain m' u' s2 s3 where
      t: "tokens (\<lambda>c. c = SP) line = m' # u' # tokens (\<lambda>c. c = SP) s2" and
      s: "strtok s2 [CR, LF] = (Some w, s3)" and w: "w = ''HTTP/1.1'' \<or> w = ''HTTP/1.0''"
      by blast
    from version_token [OF s w] t few show ?thesis by auto
  qed
next
  assume third: "3 \<le> length (tokens (\<lambda>c. c = SP) line) \<and>
    takeWhile (\<lambda>c. c \<noteq> CR \<and> c \<noteq> LF) (tokens (\<lambda>c. c = SP) line ! 2)
       \<notin> {[], ''HTTP/1.0'', ''HTTP/1.1''}"
  show "check_request_line line = Inl MalformedRequestLine"
  proof (cases "check_request_line line")
    case (Inl e)
    then show ?thesis by (cases e) simp
  next
    case (Inr r)
    obtain a b w where "r = (a, b, w)" by (cases r) auto
    with Inr have ok: "check_request_line line = Inr (a, b, w)" by simp
    from check_request_line_Inr [OF ok] obtain m' u' s2 s3 where
      t: "tokens (\<lambda>c. c = SP) line = m' # u' # tokens (\<lambda>c. c = SP) s2" and
      s: "strtok s2 [CR, LF] = (Some w, s3)" and w: "w = ''HTTP/1.1'' \<or> w = ''HTTP/1.0''"
      by blast
    from version_token [OF s w] obtain ts where
      "tokens (\<lambda>c. c = SP) s2 = takeWhile (\<lambda>c. c \<noteq> SP) s2 # ts"
      "takeWhile (\<lambda>c. c \<noteq> CR \<and> c \<noteq> LF) (takeWhile (\<lambda>c. c \<noteq> SP) s2) \<in> {[], w}"
      by blast
    with t w third show ?thesis by auto
  qed
qed

theorem check_request_line_space_separated_witness:
  "check_request_line (''GET'' @ [SP] @ ''http://a/'' @ [SP] @ ''HTTP/1.1'' @ [CR, LF]) =
     Inr (Some ''GET'', Some ''http://a/'', ''HTTP/1.1'') \<and>
   length (tokens (\<lambda>c. c = SP) (''GET http://a/'' @ [CR, LF])) < 3 \<and>
   check_request_line (''GET http://a/'' @ [CR, LF]) = Inl MalformedRequestLine \<and>
   3 \<le> length (tokens (\<lambda>c. c = SP) (''GET http://a/ HTTP/2.0'' @ [CR, LF])) \<and>
   takeWhile (\<lambda>c. c \<noteq> CR \<and> c \<noteq> LF)
     (tokens (\<lambda>c. c = SP) (''GET http://a/ HTTP/2.0'' @ [CR, LF]) ! 2) = ''HTTP/2.0'' \<and>
   check_request_line (''GET http://a/ HTTP/2.0'' @ [CR, LF]) = Inl MalformedRequestLine"
proof -
  have a: "''GET'' \<noteq> [] \<and> SP \<notin> set ''GET'' \<and> ''http://a/'' \<noteq> [] \<and> SP \<notin> set ''http://a/'' \<and>
    (''HTTP/1.1'' = ''HTTP/1.0'' \<or> ''HTTP/1.1'' = ''HTTP/1.1'') \<and>
    ([CR, LF] = [] \<or> hd [CR, LF] = CR \<or> hd [CR, LF] = LF)"
    by (simp add: SP_def)
  have b: "tokens (\<lambda>c. c = SP) (''GET http://a/'' @ [CR, LF]) = [''GET'', ''http://a/'' @ [CR, LF]]"
    by (simp add: tokens.simps SP_def CR_def LF_def)
  have c: "tokens (\<lambda>c. c = SP) (''GET http://a/ HTTP/2.0'' @ [CR, LF]) =
      [''GET'', ''http://a/'', ''HTTP/2.0'' @ [CR, LF]]"
    by (simp add: tokens.simps SP_def CR_def LF_def)
  have d: "takeWhile (\<lambda>c. c \<noteq> CR \<and> c \<noteq> LF) (''HTTP/2.0'' @ [CR, LF]) = ''HTTP/2.0''"
    by (simp add: CR_def LF_def)
  from check_request_line_space_separated
    [of "''GET''" "''http://a/''" "''HTTP/1.1''" "[CR, LF]" "''GET http://a/'' @ [CR, LF]"] a b
  have 1: "check_request_line (''GET'' @ [SP] @ ''http://a/'' @ [SP] @ ''HTTP/1.1'' @ [CR, LF]) =
     Inr (Some ''GET'', Some ''http://a/'', ''HTTP/1.1'')"
    and 2: "check_request_line (''GET http://a/'' @ [CR, LF]) = Inl MalformedRequestLine"
    by simp_all
  from check_request_line_space_separated
    [of "''GET''" "''http://a/''" "''HTTP/1.1''" "[CR, LF]" "''GET http://a/ HTTP/2.0'' @ [CR, LF]"] c d
  have 3: "check_request_line (''GET http://a/ HTTP/2.0'' @ [CR, LF]) = Inl MalformedRequestLine"
    by simp
  from 1 2 3 b c d show ?thesis by simp
qed

text \<open>
  As the claim states it, it fails at the line \<open>CR SP x SP HTTP/1.1 CR foo CR LF\<close>,
  which the parser accepts with the method \<open>CR\<close>, the URL \<open>x\<close> and the version
  \<open>HTTP/1.1\<close>. Separated at white space in the sense of \<^verbatim>\<open>isspace\<close>, its tokens are
  \<open>x\<close>, \<open>HTTP/1.1\<close> and \<open>foo\<close>: the third is no version, and the three are not what
  the parser returns. Separated at spaces alone, its third token is
  \<open>HTTP/1.1 CR foo CR LF\<close>, which is not \<open>HTTP/1.1\<close> with or without its line end.
\<close>

theorem check_request_line_whitespace_counterexample:
  "tokens isspace (CR # '' x HTTP/1.1'' @ CR # ''foo'' @ [CR, LF]) =
     [''x'', ''HTTP/1.1'', ''foo''] \<and>
   tokens (\<lambda>c. c = SP) (CR # '' x HTTP/1.1'' @ CR # ''foo'' @ [CR, LF]) =
     [[CR], ''x'', ''HTTP/1.1'' @ CR # ''foo'' @ [CR, LF]] \<and>
   check_request_line (CR # '' x HTTP/1.1'' @ CR # ''foo'' @ [CR, LF]) =
     Inr (Some [CR], Some ''x'', ''HTTP/1.1'')"
  by (simp add: tokens.simps isspace_def check_request_line_def strtok_def
        CR_def LF_def SP_def)

text \<open>
  Claim C6. The three targets of the specification resolve as it says.
\<close>

theorem parse_url_examples:
  "parse_url ''http://example.com:8080/a/b'' = Inr (''example.com'', ''8080'', ''/a/b'') \<and>
   parse_url ''http://example.com'' = Inr (''example.com'', ''80'', ''/'') \<and>
   parse_url ''example.com/x'' = Inr (''example.com'', ''80'', ''/x'')"
  by (simp add: parse_url_def strtok_def strtok_buf_def uri_of_def sizeof_char_ptr_def
        strncmp_eq_def)

text \<open>
  Claim C5, at the input it singles out: a target whose only \<^verbatim>\<open>':'\<close> comes after the
  first \<^verbatim>\<open>'/'\<close>. \<^verbatim>\<open>parse_url\<close> looks for a \<^verbatim>\<open>':'\<close> anywhere in the string, so it
  cuts the host at that colon and takes what follows as the port: here the host is
  \<open>example.com/a\<close>, the port \<open>b\<close> and the path \<open>/\<close>, where the claim has
  \<open>example.com\<close>, \<open>80\<close> and \<open>/a:b\<close>.
\<close>

theorem parse_url_colon_in_path:
  "parse_url ''http://example.com/a:b'' = Inr (''example.com/a'', ''b'', ''/'')"
  by (simp add: parse_url_def strtok_def strtok_buf_def uri_of_def sizeof_char_ptr_def
        strncmp_eq_def)

section \<open>Claims about the handler\<close>

text \<open>
  Claim C7. On the path that reaches the server (a valid request line, a resolved target,
  a lookup miss, a successful connect), with every block read before the end of the
  stream non-empty: when the response has \<open>MAX_OBJECT_SIZE\<close> bytes or more, the run
  returns, the writes to the client are exactly the blocks read, in order, and the cache
  is the one the run started with, which has no item under the request's key; and
  whatever the size of the response, a run that returns has written exactly the blocks
  read.
\<close>

theorem oversized_response_relayed_not_cached:
  assumes "client_lines e = reqline # hdrs"
    and "check_request_line reqline = Inr (Some method, Some url, version)"
    and "parse_url url = Inr (h, p, u)"
    and "fst (get_cached_item h p u c) = None"
    and "connect_ok e"
    and "[] \<notin> set (server_chunks e)"
  shows "(MAX_OBJECT_SIZE \<le> int (length (concat (server_chunks e))) \<longrightarrow>
           (\<exists>r. proxy e c = Inr r \<and> to_client r = server_chunks e \<and>
                cache_after r = c \<and> count_key h p u (items (cache_after r)) = 0)) \<and>
         (\<forall>r. proxy e c = Inr r \<longrightarrow> to_client r = server_chunks e)"
proof -
  obtain valid len cachebuf out where
    r: "relay (server_chunks e) True 0 [] [] = (valid, len, cachebuf, out)"
    by (cases "relay (server_chunks e) True 0 [] []") auto
  have out: "out = server_chunks e"
    using relay_out [OF assms(6), of True 0 "[]" "[]"] r by simp
  note miss = get_cached_item_miss [OF assms(4)]
  have all: "\<forall>r. proxy e c = Inr r \<longrightarrow> to_client r = server_chunks e"
    using assms(1,2,3,5) miss r out
    by (auto simp: proxy_def Let_def split: sum.splits if_splits)
  have big: "\<exists>r. proxy e c = Inr r \<and> to_client r = server_chunks e \<and>
                cache_after r = c \<and> count_key h p u (items (cache_after r)) = 0"
    if "MAX_OBJECT_SIZE \<le> int (length (concat (server_chunks e)))"
  proof -
    have "\<not> valid" using relay_oversized [OF assms(6) that] r by simp
    then show ?thesis
      using assms(1,2,3,5) miss r out count_key_miss [OF assms(4)]
      by (simp add: proxy_def Let_def)
  qed
  from all big show ?thesis by blast
qed

theorem oversized_response_relayed_not_cached_witness:
  "MAX_OBJECT_SIZE \<le>
     int (length (concat (replicate 244 (replicate 8192 (CHR ''x'')) @ [replicate 1152 (CHR ''x'')]))) \<and>
   (\<exists>r. proxy \<lparr>client_lines = [''GET http://origin:9000/big HTTP/1.1'' @ [CR, LF], [CR, LF]],
               connect_ok = True,
               server_chunks = replicate 244 (replicate 8192 (CHR ''x'')) @
                                 [replicate 1152 (CHR ''x'')]\<rparr> init_cache = Inr r \<and>
        to_client r = replicate 244 (replicate 8192 (CHR ''x'')) @ [replicate 1152 (CHR ''x'')] \<and>
        cache_after r = init_cache \<and>
        count_key ''origin'' ''9000'' ''/big'' (items (cache_after r)) = 0)"
proof -
  let ?chunks = "replicate 244 (replicate 8192 (CHR ''x'')) @ [replicate 1152 (CHR ''x'')]"
  let ?e = "\<lparr>client_lines = [''GET http://origin:9000/big HTTP/1.1'' @ [CR, LF], [CR, LF]],
             connect_ok = True, server_chunks = ?chunks\<rparr>"
  have 1: "client_lines ?e = (''GET http://origin:9000/big HTTP/1.1'' @ [CR, LF]) # [[CR, LF]]"
    by simp
  have 2: "check_request_line (''GET http://origin:9000/big HTTP/1.1'' @ [CR, LF]) =
             Inr (Some ''GET'', Some ''http://origin:9000/big'', ''HTTP/1.1'')"
    by (simp add: check_request_line_def strtok_def CR_def LF_def SP_def)
  have 3: "parse_url ''http://origin:9000/big'' = Inr (''origin'', ''9000'', ''/big'')"
    by (simp add: parse_url_def strtok_def strtok_buf_def uri_of_def sizeof_char_ptr_def
          strncmp_eq_def)
  have 4: "fst (get_cached_item ''origin'' ''9000'' ''/big'' init_cache) = None"
    by (simp add: get_cached_item_def init_cache_def)
  have 5: "connect_ok ?e" by simp
  have 6: "[] \<notin> set (server_chunks ?e)" by auto
  have 7: "MAX_OBJECT_SIZE \<le> int (length (concat ?chunks))"
    by (simp add: MAX_OBJECT_SIZE_def length_concat sum_list_replicate)
  from oversized_response_relayed_not_cached [OF 1 2 3 4 5 6] 7
  show ?thesis by simp
qed

text \<open>
  Claim C9, at a request whose connect fails: the handler writes the 400 payload and
  frees the three target strings, and the cache is unchanged, but it returns without
  \<^verbatim>\<open>close(connfd)\<close>. The paths for an empty or malformed request do close it (second
  conjunct).
\<close>

theorem proxy_connect_failure_not_closed:
  "proxy \<lparr>client_lines = [''GET http://example.com/ HTTP/1.1'' @ [CR, LF], [CR, LF]],
          connect_ok = False, server_chunks = []\<rparr> init_cache =
     Inr \<lparr>to_client = [bad_request], to_server = [], connfd_closed = False,
          target_freed = True, cache_after = init_cache\<rparr> \<and>
   proxy \<lparr>client_lines = [''GET http://example.com/'' @ [CR, LF], [CR, LF]],
          connect_ok = False, server_chunks = []\<rparr> init_cache =
     Inr \<lparr>to_client = [bad_request], to_server = [], connfd_closed = True,
          target_freed = False, cache_after = init_cache\<rparr>"
  by (simp add: proxy_def check_request_line_def parse_url_def strtok_def strtok_buf_def
        uri_of_def sizeof_char_ptr_def strncmp_eq_def get_cached_item_def init_cache_def
        CR_def LF_def SP_def)

text \<open>
  Claim C8, at a request with the header lines \<open>Connection-Id: 7\<close>,
  \<open>user-agent: x\<close> and \<open>Accept: text/html\<close>. The request line sent has the path in
  place of the URL and the fixed block comes last, but the three \<^verbatim>\<open>strncmp\<close> calls
  compare a prefix of 10 or 16 characters, with case: \<open>Connection-Id\<close>, another header,
  is dropped, and the client's \<open>user-agent\<close> is passed on.
\<close>

theorem forward_headers_prefix_match:
  "proxy \<lparr>client_lines = [''GET http://origin:9000/page HTTP/1.1'' @ [CR, LF],
             ''Connection-Id: 7'' @ [CR, LF],
             ''user-agent: x'' @ [CR, LF],
             ''Accept: text/html'' @ [CR, LF],
             [CR, LF]],
          connect_ok = True, server_chunks = [''ok'']\<rparr> init_cache =
     Inr \<lparr>to_client = [''ok''],
          to_server = [''GET /page HTTP/1.1'' @ [CR, LF],
             ''user-agent: x'' @ [CR, LF],
             ''Accept: text/html'' @ [CR, LF],
             client_res_hdr],
          connfd_closed = True, target_freed = False,
          cache_after = \<lparr>items = [\<lparr>length_ci = 2, host = ''origin'', port = ''9000'',
                 uri = ''/page'', data = ''ok''\<rparr>],
             cachehead_length = 1, cachesize = 2, freed = []\<rparr>\<rparr>"
  by (simp add: proxy_def check_request_line_def parse_url_def strtok_def strtok_buf_def
        uri_of_def sizeof_char_ptr_def strncmp_eq_def get_cached_item_def init_cache_def
        CR_def LF_def SP_def cache_insert_def evict_loop.simps MAX_CACHE_SIZE_def
        MAX_OBJECT_SIZE_def)

end
